theory Spec2Isabelle
  imports Main "HOL-Library.Word"
begin

section \<open>Data model of the B-tree verifier (bt\_vrfy.c) and statistics walker (bt\_stat.c)\<close>

type_synonym u32 = "32 word"
type_synonym u64 = "64 word"

text \<open>A key is the byte string held by a \<^verbatim>\<open>WT_ITEM\<close> / \<^verbatim>\<open>WT_BUF\<close> (data and size).\<close>

type_synonym key = string

text \<open>
  Return codes. The C functions return \<^verbatim>\<open>int\<close>: 0, the generic \<^verbatim>\<open>WT_ERROR\<close>, or
  whatever non-zero status a collaborator (allocation, page cache, disk read) hands up.
  The numeric value of \<^verbatim>\<open>WT_ERROR\<close> lives in a header outside the sources, so the three
  cases are kept apart by a datatype; \<open>FAIL e\<close> is a collaborator's non-zero status.
\<close>

datatype ret = OK | WT_ERROR | FAIL int

text \<open>The diagnostics the verifier hands to \<^verbatim>\<open>__wt_errx\<close>, one constructor per format string,
  carrying the printf arguments in order.\<close>

datatype msg =
    No_data_pages
      \<comment> \<open>"the file contains no data pages and cannot be verified"\<close>
  | Bad_file_size
      \<comment> \<open>"the file size is not valid for the allocation size"\<close>
  | Too_large
      \<comment> \<open>"file is too large to verify"\<close>
  | Recno_mismatch u32 u64 u64
      \<comment> \<open>"page at addr A has a starting record of R where the expected starting record was E"\<close>
  | Int_key_order u32 u32 u32
      \<comment> \<open>"the internal key in entry N on the page at addr A sorts before the last key
          appearing on page P"\<close>
  | Leaf_key_order u32 u32
      \<comment> \<open>"the first key on the page at addr A sorts equal or less than a key appearing
          on page P"\<close>
  | Freelist_bounds u32
      \<comment> \<open>"free-list entry addr A references non-existent file pages"\<close>
  | Already_verified u32
      \<comment> \<open>"file fragment at addr A already verified"\<close>
  | Never_verified int
      \<comment> \<open>"file fragment N was never verified"\<close>
  | Never_verified_range int int
      \<comment> \<open>"file fragments N-M were never verified"\<close>

text \<open>
  \<^verbatim>\<open>WT_VSTUFF\<close>, field for field; \<open>fragbits\<close> is the bit string as a list of bits.
  The last field, \<open>errx\<close>, is not part of the C struct: it is the session's error-message
  sink, to which \<^verbatim>\<open>__wt_errx\<close> appends, carried along with the verifier state.
\<close>

record WT_VSTUFF =
  frags :: u32
  fragbits :: "bool list"
  record_total :: u64
  max_key :: key
  max_addr :: u32
  fcnt :: u64
  dumpfile :: bool
  errx :: "msg list"

text \<open>
  An unpacked cell (\<^verbatim>\<open>WT_CELL_UNPACK\<close>): its type, its run length and, for an overflow
  cell, the address and size of the overflow page (\<^verbatim>\<open>off.addr\<close>, \<^verbatim>\<open>off.size\<close>).
  Of the cell types only the two overflow types have a case in the code; \<open>WT_CELL_OTHER\<close>
  stands for every other type. The struct's declaration is outside the sources; the run
  length is taken at the width of the counters it is added to.
\<close>

datatype cell_type = WT_CELL_KEY_OVFL | WT_CELL_VALUE_OVFL | WT_CELL_OTHER

record WT_CELL_UNPACK =
  ctype :: cell_type
  rle :: u64
  off_addr :: u32
  off_size :: u32

text \<open>
  A slot of a variable-length column-store leaf (\<^verbatim>\<open>WT_COL\<close>): \<open>col_ptr\<close> is
  \<^verbatim>\<open>WT_COL_PTR(page, cip)\<close>, unpacked (\<open>None\<close> for \<^verbatim>\<open>NULL\<close>), and \<open>col_insert\<close> is the
  slot's insert list \<^verbatim>\<open>WT_COL_INSERT(page, cip)\<close>, each element given by
  \<^verbatim>\<open>WT_UPDATE_DELETED_ISSET(ins->upd)\<close>.
  A slot of a row-store leaf (\<^verbatim>\<open>WT_ROW\<close>) is given by what \<^verbatim>\<open>__wt_row_key\<close> does for
  it: the status it returns and the key it materialises.
\<close>

record WT_COL =
  col_ptr :: "WT_CELL_UNPACK option"
  col_insert :: "bool list"

type_synonym WT_ROW = "ret \<times> key"

text \<open>
  Pages and references. A page is its \<^verbatim>\<open>type\<close> with the members of the union
  \<^verbatim>\<open>u\<close> that the type selects:
  \<^item> \<open>WT_PAGE_COL_FIX recno entries\<close>;
  \<^item> \<open>WT_PAGE_COL_INT recno t\<close>, \<open>t\<close> the \<^verbatim>\<open>WT_COL_REF\<close> array as (recno, ref) pairs;
  \<^item> \<open>WT_PAGE_COL_VAR recno d dsk\<close>, \<open>d\<close> the slot array;
  \<^item> \<open>WT_PAGE_ROW_INT t dsk\<close>, \<open>t\<close> the \<^verbatim>\<open>WT_ROW_REF\<close> array as (key, ref) pairs;
  \<^item> \<open>WT_PAGE_ROW_LEAF d dsk\<close>, \<open>d\<close> the slot array;
  \<^item> \<open>WT_PAGE_OVFL\<close>, which also stands for any type the verifier has no case for.
  The arrays hold \<^verbatim>\<open>page->entries\<close> elements: that is what the \<^verbatim>\<open>FOREACH\<close> macros
  walk. \<open>dsk\<close> is the list of unpacked cells of the disk image, \<open>None\<close> when
  \<^verbatim>\<open>page->dsk\<close> is \<^verbatim>\<open>NULL\<close>.
  A reference \<open>WT_REF addr size page in evict\<close> holds \<^verbatim>\<open>ref->addr\<close>,
  \<^verbatim>\<open>ref->size\<close> and the page \<^verbatim>\<open>ref->page\<close>, and the statuses the page cache returns
  for it: \<open>in\<close> from \<^verbatim>\<open>__wt_page_in\<close> and \<open>evict\<close> from \<^verbatim>\<open>__wt_page_reconcile\<close>.
\<close>

datatype WT_PAGE =
    WT_PAGE_COL_FIX u64 u32
  | WT_PAGE_COL_INT u64 "(u64 \<times> WT_REF) list"
  | WT_PAGE_COL_VAR u64 "WT_COL list" "WT_CELL_UNPACK list option"
  | WT_PAGE_OVFL
  | WT_PAGE_ROW_INT "(key \<times> WT_REF) list" "WT_CELL_UNPACK list option"
  | WT_PAGE_ROW_LEAF "WT_ROW list" "WT_CELL_UNPACK list option"
and WT_REF = WT_REF u32 u32 WT_PAGE ret ret

text \<open>
  What the functions read through \<^verbatim>\<open>session->btree\<close>: the allocation size, the file
  size (\<^verbatim>\<open>btree->fh->file_size\<close>, an \<^verbatim>\<open>off_t\<close>), the free list in queue order as
  (addr, size) pairs, the configured comparator and the root reference. The remaining
  fields are the statuses returned by the collaborators whose code is outside the sources;
  each call site that tests such a status is a branch of the model.
\<close>

record session =
  allocsize :: u32
  file_size :: int
  freeqa :: "(u32 \<times> u32) list"
  btree_compare :: "key \<Rightarrow> key \<Rightarrow> int"
  root_page :: WT_REF
  scr_alloc :: "u32 \<Rightarrow> ret"
    \<comment> \<open>\<^verbatim>\<open>__wt_scr_alloc(session, size, &buf)\<close>\<close>
  buf_set :: "key \<Rightarrow> ret"
    \<comment> \<open>\<^verbatim>\<open>__wt_buf_set(session, buf, data, size)\<close>\<close>
  bit_alloc :: "u32 \<Rightarrow> ret"
    \<comment> \<open>\<^verbatim>\<open>bit_alloc(session, nbits, &bits)\<close>\<close>
  disk_read :: "u32 \<Rightarrow> u32 \<Rightarrow> ret"
    \<comment> \<open>\<^verbatim>\<open>__wt_disk_read(session, dsk, addr, size)\<close>\<close>
  verify_dsk_chunk :: "u32 \<Rightarrow> u32 \<Rightarrow> ret"
    \<comment> \<open>\<^verbatim>\<open>__wt_verify_dsk_chunk(session, dsk, addr, datalen, size, 0)\<close>\<close>
  debug_page :: "u32 \<Rightarrow> ret"
    \<comment> \<open>\<^verbatim>\<open>__wt_debug_page(session, page, NULL)\<close>, by the page's address\<close>

subsection \<open>Constants and macros from headers outside the sources\<close>

text \<open>Modelled from the spec: \<^verbatim>\<open>WT_BTREE_DESC_SECTOR\<close>, the descriptor that occupies the
  first 512 bytes of the file (the header defining it is missing).\<close>

definition WT_BTREE_DESC_SECTOR :: int where
  "WT_BTREE_DESC_SECTOR = 512"

text \<open>\<^verbatim>\<open>INT_MAX\<close> of a 32-bit \<^verbatim>\<open>int\<close>.\<close>

definition INT_MAX :: u32 where
  "INT_MAX = 0x7FFFFFFF"

text \<open>Modelled from the spec: \<^verbatim>\<open>WT_ADDR_INVALID\<close>, the sentinel address of a reference
  that names no page (the header defining it is missing); the largest 32-bit value.\<close>

definition WT_ADDR_INVALID :: u32 where
  "WT_ADDR_INVALID = 0xFFFFFFFF"

text \<open>Modelled from the spec: \<^verbatim>\<open>WT_ADDR_TO_OFF\<close> (macro missing): address \<open>a\<close> refers to
  byte \<open>DESC_SECTOR + a * allocsize\<close>. The arithmetic is in \<^verbatim>\<open>off_t\<close>, a signed 64-bit
  type; it is written on \<open>int\<close>, where it is exact.\<close>

definition WT_ADDR_TO_OFF :: "session \<Rightarrow> u32 \<Rightarrow> int" where
  "WT_ADDR_TO_OFF s addr = WT_BTREE_DESC_SECTOR + uint addr * uint (allocsize s)"

text \<open>Modelled from the spec: \<^verbatim>\<open>WT_OFF_TO_ADDR\<close> (macro missing):
  \<open>(off - DESC_SECTOR) / allocsize\<close>, again in \<^verbatim>\<open>off_t\<close> arithmetic. The operands
  are non-negative wherever the code uses it, so C's truncating division is \<open>div\<close>.\<close>

definition WT_OFF_TO_ADDR :: "session \<Rightarrow> int \<Rightarrow> int" where
  "WT_OFF_TO_ADDR s off = (off - WT_BTREE_DESC_SECTOR) div uint (allocsize s)"

subsection \<open>The bit string\<close>

text \<open>
  Modelled from the spec: the bit-string macros \<^verbatim>\<open>bit_test\<close>, \<^verbatim>\<open>bit_set\<close>,
  \<^verbatim>\<open>bit_nset\<close> and \<^verbatim>\<open>bit_ffc\<close> (bitstring.h is missing): an owned bit-vector with
  test, set, set-range (both ends inclusive) and find-first-clear among the first
  \<open>nbits\<close> bits (\<open>-1\<close> when there is none). In C an index past the allocation is
  undefined; here a read past the end is \<open>False\<close> and a write past the end is dropped,
  and every theorem that depends on it assumes the indices are in range.
\<close>

definition bit_test :: "bool list \<Rightarrow> nat \<Rightarrow> bool" where
  "bit_test bits i = (i < length bits \<and> bits ! i)"

definition bit_set :: "bool list \<Rightarrow> nat \<Rightarrow> bool list" where
  "bit_set bits i = bits[i := True]"

definition bit_nset :: "bool list \<Rightarrow> nat \<Rightarrow> nat \<Rightarrow> bool list" where
  "bit_nset bits start stop = fold (\<lambda>i bs. bs[i := True]) [start..<Suc stop] bits"

definition bit_ffc :: "bool list \<Rightarrow> int \<Rightarrow> int" where
  "bit_ffc bits nbits =
     (let window = take (nat nbits) bits;
          p = length (takeWhile (\<lambda>b. b) window)
      in if p < length window then int p else - 1)"

section \<open>The frag-map: \<^verbatim>\<open>__verify_addfrag\<close>\<close>

text \<open>
  The test loop of \<^verbatim>\<open>__verify_addfrag\<close>:
  \<^verbatim>\<open>for (i = 0; i < frags; ++i) if (bit_test(vs->fragbits, addr + i)) ... return (WT_ERROR);\<close>
  with \<open>i\<close>, \<open>frags\<close> and \<open>addr + i\<close> in 32-bit unsigned arithmetic. The result is
  \<open>True\<close> when the loop leaves through the error return.
\<close>

function addfrag_test :: "bool list \<Rightarrow> u32 \<Rightarrow> u32 \<Rightarrow> u32 \<Rightarrow> bool" where
  "addfrag_test bits addr nfrags i =
     (if i < nfrags then
        (if bit_test bits (unat (addr + i)) then True
         else addfrag_test bits addr nfrags (i + 1))
      else False)"
  by pat_completeness auto
termination
proof (relation "measure (\<lambda>(bits, addr, nfrags, i). unat nfrags - unat i)")
  show "wf (measure (\<lambda>(bits, addr, nfrags, i). unat nfrags - unat i))"
    by simp
next
  fix bits :: "bool list" and addr nfrags i :: u32
  assume "i < nfrags"
  then have lt: "unat i < unat nfrags"
    by (simp add: word_less_nat_alt)
  moreover have "unat nfrags < 2 ^ 32"
    using unsigned_less [of nfrags] by simp
  ultimately have "unat i + 1 < 2 ^ 32"
    by simp
  then have "unat (i + 1) = Suc (unat i)"
    by (simp add: unat_word_ariths)
  with lt show "((bits, addr, nfrags, i + 1), (bits, addr, nfrags, i))
      \<in> measure (\<lambda>(bits, addr, nfrags, i). unat nfrags - unat i)"
    by simp
qed

declare addfrag_test.simps [simp del]

definition verify_addfrag :: "session \<Rightarrow> u32 \<Rightarrow> u32 \<Rightarrow> WT_VSTUFF \<Rightarrow> ret \<times> WT_VSTUFF" where
  "verify_addfrag s addr sz vs =
     (let nfrags = sz div allocsize s in
      if addfrag_test (fragbits vs) addr nfrags 0
      then (WT_ERROR, vs\<lparr>errx := errx vs @ [Already_verified addr]\<rparr>)
      else if nfrags > 0
      then (OK, vs\<lparr>fragbits :=
              bit_nset (fragbits vs) (unat addr) (unat (addr + (nfrags - 1)))\<rparr>)
      else (OK, vs))"

section \<open>The coverage audit: \<^verbatim>\<open>__verify_checkfrag\<close>\<close>

text \<open>
  The loop \<^verbatim>\<open>for (ffc_start = ffc_end = -1;;)\<close> of \<^verbatim>\<open>__verify_checkfrag\<close>. The two
  \<^verbatim>\<open>continue\<close> statements are the first two branches; the third branch is the tail of
  the loop body (the bit has been set if one was found, the pending run is reported, the
  run restarts at \<open>ffc\<close>) with the \<^verbatim>\<open>break\<close> on \<open>ffc = -1\<close>. The C \<^verbatim>\<open>int\<close>s are
  written on \<open>int\<close>: they range over \<open>-1\<close> and bit indices, and \<open>ffc - 1\<close> cannot
  overflow.
\<close>

function checkfrag_loop :: "int \<Rightarrow> int \<Rightarrow> int \<Rightarrow> ret \<Rightarrow> WT_VSTUFF \<Rightarrow> ret \<times> WT_VSTUFF" where
  "checkfrag_loop nfrags ffc_start ffc_end r vs =
     (let ffc = bit_ffc (fragbits vs) nfrags in
      if ffc \<noteq> - 1 \<and> ffc_start = - 1
      then checkfrag_loop nfrags ffc ffc r
             (vs\<lparr>fragbits := bit_set (fragbits vs) (nat ffc)\<rparr>)
      else if ffc \<noteq> - 1 \<and> ffc_end = ffc - 1
      then checkfrag_loop nfrags ffc_start ffc r
             (vs\<lparr>fragbits := bit_set (fragbits vs) (nat ffc)\<rparr>)
      else
        let vs1 = (if ffc \<noteq> - 1 then vs\<lparr>fragbits := bit_set (fragbits vs) (nat ffc)\<rparr> else vs);
            vs2 = (if ffc_start \<noteq> - 1
                   then vs1\<lparr>errx := errx vs1 @
                          [if ffc_start = ffc_end then Never_verified ffc_start
                           else Never_verified_range ffc_start ffc_end]\<rparr>
                   else vs1);
            r2 = (if ffc_start \<noteq> - 1 then WT_ERROR else r)
        in if ffc = - 1 then (r2, vs2) else checkfrag_loop nfrags ffc ffc r2 vs2)"
  by pat_completeness auto
termination
proof -
  have less: "length (filter Not (w[p := True])) < length (filter Not w)"
    if "p < length w" and "\<not> w ! p" for w :: "bool list" and p
    using that
  proof (induction w arbitrary: p)
    case Nil
    then show ?case by simp
  next
    case (Cons b w)
    show ?case
    proof (cases p)
      case 0
      with Cons.prems show ?thesis by simp
    next
      case (Suc q)
      with Cons.prems Cons.IH [of q] show ?thesis by simp
    qed
  qed
  have ffc: "length (filter Not (take (nat n) (bit_set bits (nat (bit_ffc bits n)))))
      < length (filter Not (take (nat n) bits))" if "bit_ffc bits n \<noteq> - 1" for bits n
  proof -
    define w where "w = take (nat n) bits"
    define p where "p = length (takeWhile (\<lambda>b. b) w)"
    have p: "p < length w" and f: "bit_ffc bits n = int p"
      using that by (simp_all add: bit_ffc_def Let_def w_def p_def split: if_splits)
    have "\<not> w ! p"
      using p nth_length_takeWhile [of "\<lambda>b. b" w] by (simp add: p_def)
    then have "length (filter Not (w[p := True])) < length (filter Not w)"
      using p by (rule less [rotated])
    then show ?thesis
      by (simp add: f bit_set_def take_update_swap w_def)
  qed
  show ?thesis
  proof (relation "measure (\<lambda>(n, s, e, r, vs). length (filter Not (take (nat n) (fragbits vs))))")
    show "wf (measure (\<lambda>(n, s, e, r, vs). length (filter Not (take (nat n) (fragbits vs)))))"
      by simp
  qed (simp_all add: ffc)
qed

declare checkfrag_loop.simps [simp del]

text \<open>\<^verbatim>\<open>__verify_checkfrag\<close>: \<^verbatim>\<open>frags = (int)vs->frags\<close>, \<^verbatim>\<open>ret = 0\<close>, then the loop.\<close>

definition verify_checkfrag :: "session \<Rightarrow> WT_VSTUFF \<Rightarrow> ret \<times> WT_VSTUFF" where
  "verify_checkfrag s vs = checkfrag_loop (sint (frags vs)) (- 1) (- 1) OK vs"

text \<open>
  The claim's words, for comparison with the loop: \<open>unverified_run bits a b\<close> says that
  \<open>[a, b]\<close> is a maximal run of consecutive unset bits of the map, and \<open>run_msg\<close> is
  the diagnostic for a run, in the single-fragment form when the run has length 1 and in
  the range form, naming first and last fragment, otherwise. \<open>scan_runs\<close> lists the
  maximal runs in one pass from left to right (\<open>i\<close> is the index of the next bit, the
  second argument is the run that is still open).
\<close>

definition unverified_run :: "bool list \<Rightarrow> nat \<Rightarrow> nat \<Rightarrow> bool" where
  "unverified_run bits a b =
     (a \<le> b \<and> b < length bits \<and> (\<forall>i. a \<le> i \<and> i \<le> b \<longrightarrow> \<not> bits ! i)
      \<and> (a = 0 \<or> bits ! (a - 1)) \<and> (Suc b = length bits \<or> bits ! Suc b))"

definition run_msg :: "nat \<times> nat \<Rightarrow> msg" where
  "run_msg r = (if fst r = snd r then Never_verified (int (fst r))
                else Never_verified_range (int (fst r)) (int (snd r)))"

fun scan_runs :: "nat \<Rightarrow> (nat \<times> nat) option \<Rightarrow> bool list \<Rightarrow> (nat \<times> nat) list" where
  "scan_runs i None [] = []"
| "scan_runs i (Some r) [] = [r]"
| "scan_runs i None (b # bs) =
     (if b then scan_runs (Suc i) None bs else scan_runs (Suc i) (Some (i, i)) bs)"
| "scan_runs i (Some (a, e)) (b # bs) =
     (if b then (a, e) # scan_runs (Suc i) None bs else scan_runs (Suc i) (Some (a, i)) bs)"

section \<open>The free list: \<^verbatim>\<open>__verify_freelist\<close>\<close>

text \<open>
  Modelled from the spec: the error-merging macro \<^verbatim>\<open>WT_TRET\<close> (wt\_internal.h is
  missing), "first non-zero wins": \<^verbatim>\<open>WT_TRET(a)\<close> evaluates \<open>a\<close> and stores its
  status in \<^verbatim>\<open>ret\<close> only when it is non-zero and \<^verbatim>\<open>ret\<close> is still 0. The first
  argument is the current \<^verbatim>\<open>ret\<close>, the second the status of \<open>a\<close>.
  The other macros of that family are control flow and are written out where they are
  used: \<^verbatim>\<open>WT_RET(a)\<close> returns the status of \<open>a\<close> when it is non-zero,
  \<^verbatim>\<open>WT_ERR(a)\<close> stores it in \<^verbatim>\<open>ret\<close> and jumps to \<^verbatim>\<open>err\<close>, and
  \<^verbatim>\<open>WT_RET_TEST(c, r)\<close> returns \<open>r\<close> when \<open>c\<close> holds.
\<close>

definition WT_TRET :: "ret \<Rightarrow> ret \<Rightarrow> ret" where
  "WT_TRET r a = (if a \<noteq> OK \<and> r = OK then a else r)"

text \<open>The body of \<^verbatim>\<open>TAILQ_FOREACH(fe, &btree->freeqa, qa)\<close>, over the queue in order.\<close>

fun freelist_loop :: "session \<Rightarrow> (u32 \<times> u32) list \<Rightarrow> ret \<Rightarrow> WT_VSTUFF \<Rightarrow> ret \<times> WT_VSTUFF" where
  "freelist_loop s [] r vs = (r, vs)"
| "freelist_loop s ((addr, sz) # fes) r vs =
     (if WT_ADDR_TO_OFF s addr + uint sz > file_size s
      then (WT_ERROR, vs\<lparr>errx := errx vs @ [Freelist_bounds addr]\<rparr>)
      else (case verify_addfrag s addr sz vs of
              (r1, vs1) \<Rightarrow> freelist_loop s fes (WT_TRET r r1) vs1))"

definition verify_freelist :: "session \<Rightarrow> WT_VSTUFF \<Rightarrow> ret \<times> WT_VSTUFF" where
  "verify_freelist s vs = freelist_loop s (freeqa s) OK vs"

text \<open>
  The claim's words, for comparison with the loop. \<open>body_size\<close> is the file size less
  the descriptor sector; an entry is in bounds when \<open>addr * allocsize + size\<close> does not
  exceed it. \<open>charge_entries\<close> charges each entry of a list through addfrag, in order
  and without stopping at an error, and returns the statuses in order with the final
  state; \<open>first_error\<close> is the first non-zero status of a list, 0 if there is none.
\<close>

definition body_size :: "session \<Rightarrow> int" where
  "body_size s = file_size s - WT_BTREE_DESC_SECTOR"

definition in_bounds :: "session \<Rightarrow> u32 \<times> u32 \<Rightarrow> bool" where
  "in_bounds s fe = (uint (fst fe) * uint (allocsize s) + uint (snd fe) \<le> body_size s)"

fun charge_entries :: "session \<Rightarrow> (u32 \<times> u32) list \<Rightarrow> WT_VSTUFF \<Rightarrow> ret list \<times> WT_VSTUFF" where
  "charge_entries s [] vs = ([], vs)"
| "charge_entries s ((addr, sz) # fes) vs =
     (case verify_addfrag s addr sz vs of
        (r1, vs1) \<Rightarrow> (case charge_entries s fes vs1 of (rs, vs2) \<Rightarrow> (r1 # rs, vs2)))"

definition first_error :: "ret list \<Rightarrow> ret" where
  "first_error rs = (case filter (\<lambda>r. r \<noteq> OK) rs of [] \<Rightarrow> OK | e # _ \<Rightarrow> e)"

section \<open>The tree walk: \<^verbatim>\<open>__verify_tree\<close> and its helpers\<close>

subsection \<open>Key order\<close>

text \<open>
  \<^verbatim>\<open>__verify_row_int_key_order(session, page, rref, entry, vs)\<close>. \<open>paddr\<close> is
  \<^verbatim>\<open>WT_PADDR(page)\<close> and \<open>k\<close> is the key of \<open>rref\<close> (\<^verbatim>\<open>WT_IKEY_DATA(ikey)\<close>,
  \<^verbatim>\<open>ikey->size\<close>). The \<^verbatim>\<open>WT_ASSERT\<close> is compiled out of a release build. When
  \<^verbatim>\<open>__wt_buf_set\<close> fails its status is returned and \<open>max_addr\<close> is not reached.
\<close>

definition verify_row_int_key_order ::
    "session \<Rightarrow> u32 \<Rightarrow> key \<Rightarrow> u32 \<Rightarrow> WT_VSTUFF \<Rightarrow> ret \<times> WT_VSTUFF" where
  "verify_row_int_key_order s paddr k entry vs =
     (if btree_compare s k (max_key vs) \<le> 0
      then (WT_ERROR, vs\<lparr>errx := errx vs @ [Int_key_order entry paddr (max_addr vs)]\<rparr>)
      else (case buf_set s k of
              OK \<Rightarrow> (OK, vs\<lparr>max_key := k, max_addr := paddr\<rparr>)
            | e \<Rightarrow> (e, vs)))"

text \<open>
  \<^verbatim>\<open>__verify_row_leaf_key_order(session, page, vs)\<close>. \<open>d\<close> is the slot array
  \<^verbatim>\<open>page->u.row_leaf.d\<close>: its first slot is \<open>hd d\<close> and the slot
  \<^verbatim>\<open>d + (page->entries - 1)\<close> is \<open>last d\<close>. On a page without entries the C code
  reads outside the array; the theorems about this function assume \<open>d \<noteq> []\<close>.
  \<open>row_leaf_update\<close> is the tail of the function, after the \<^verbatim>\<open>if\<close>.
\<close>

definition row_leaf_update :: "u32 \<Rightarrow> WT_ROW list \<Rightarrow> WT_VSTUFF \<Rightarrow> ret \<times> WT_VSTUFF" where
  "row_leaf_update paddr d vs =
     (let vs1 = vs\<lparr>max_addr := paddr\<rparr> in
      case last d of
        (OK, k) \<Rightarrow> (OK, vs1\<lparr>max_key := k\<rparr>)
      | (e, k) \<Rightarrow> (e, vs1))"

definition verify_row_leaf_key_order ::
    "session \<Rightarrow> u32 \<Rightarrow> WT_ROW list \<Rightarrow> WT_VSTUFF \<Rightarrow> ret \<times> WT_VSTUFF" where
  "verify_row_leaf_key_order s paddr d vs =
     (if max_addr vs = WT_ADDR_INVALID then
        (case scr_alloc s 0 of
           OK \<Rightarrow>
             (case hd d of
                (OK, k) \<Rightarrow>
                  if btree_compare s k (max_key vs) < 0
                  then (WT_ERROR,
                        vs\<lparr>errx := errx vs @ [Leaf_key_order paddr (max_addr vs)]\<rparr>)
                  else row_leaf_update paddr d vs
              | (e, k) \<Rightarrow> (e, vs))
         | e \<Rightarrow> (e, vs))
      else row_leaf_update paddr d vs)"

subsection \<open>Overflow pages\<close>

text \<open>\<^verbatim>\<open>__verify_overflow(session, addr, size, vs)\<close>: the three collaborators in turn, each
  through \<^verbatim>\<open>WT_RET\<close> or \<^verbatim>\<open>WT_ERR\<close>, then the fragments.\<close>

definition verify_overflow :: "session \<Rightarrow> u32 \<Rightarrow> u32 \<Rightarrow> WT_VSTUFF \<Rightarrow> ret \<times> WT_VSTUFF" where
  "verify_overflow s addr sz vs =
     (case scr_alloc s sz of
        OK \<Rightarrow>
          (case disk_read s addr sz of
             OK \<Rightarrow>
               (case verify_dsk_chunk s addr sz of
                  OK \<Rightarrow> verify_addfrag s addr sz vs
                | e \<Rightarrow> (e, vs))
           | e \<Rightarrow> (e, vs))
      | e \<Rightarrow> (e, vs))"

text \<open>The \<^verbatim>\<open>WT_CELL_FOREACH\<close> loop of \<^verbatim>\<open>__verify_overflow_cell\<close> over the cells of the
  disk image, and the function itself, which returns 0 at once when there is no image.\<close>

fun overflow_cell_loop :: "session \<Rightarrow> WT_CELL_UNPACK list \<Rightarrow> WT_VSTUFF \<Rightarrow> ret \<times> WT_VSTUFF" where
  "overflow_cell_loop s [] vs = (OK, vs)"
| "overflow_cell_loop s (unpack # cells) vs =
     (if ctype unpack = WT_CELL_KEY_OVFL \<or> ctype unpack = WT_CELL_VALUE_OVFL
      then (case verify_overflow s (off_addr unpack) (off_size unpack) vs of
              (OK, vs1) \<Rightarrow> overflow_cell_loop s cells vs1
            | (e, vs1) \<Rightarrow> (e, vs1))
      else overflow_cell_loop s cells vs)"

definition verify_overflow_cell ::
    "session \<Rightarrow> WT_CELL_UNPACK list option \<Rightarrow> WT_VSTUFF \<Rightarrow> ret \<times> WT_VSTUFF" where
  "verify_overflow_cell s dsk vs =
     (case dsk of None \<Rightarrow> (OK, vs) | Some cells \<Rightarrow> overflow_cell_loop s cells vs)"

subsection \<open>The checks on one page\<close>

text \<open>
  Modelled from the spec: \<^verbatim>\<open>WT_PADDR(page)\<close> and \<^verbatim>\<open>WT_COL_REF_ADDR(cref)\<close> (macros
  missing) are the address of the page, that is the \<open>addr\<close> of the reference that leads
  to it; they appear below as the reference's address.

  The first \<^verbatim>\<open>switch\<close> of \<^verbatim>\<open>__verify_tree\<close>: the starting record number of a
  column-store page against \<open>parent_recno\<close>.
\<close>

definition recno_chk :: "u32 \<Rightarrow> WT_PAGE \<Rightarrow> u64 \<Rightarrow> WT_VSTUFF \<Rightarrow> ret \<times> WT_VSTUFF" where
  "recno_chk paddr page parent_recno vs =
     (let chk = (\<lambda>recno.
            if parent_recno \<noteq> recno
            then (WT_ERROR, vs\<lparr>errx := errx vs @ [Recno_mismatch paddr recno parent_recno]\<rparr>)
            else (OK, vs))
      in case page of
           WT_PAGE_COL_INT recno t \<Rightarrow> chk recno
         | WT_PAGE_COL_FIX recno entries \<Rightarrow> chk recno
         | WT_PAGE_COL_VAR recno d dsk \<Rightarrow> chk recno
         | _ \<Rightarrow> (OK, vs))"

text \<open>
  The second \<^verbatim>\<open>switch\<close>: the record count. \<open>col_var_records\<close> is the
  \<^verbatim>\<open>WT_COL_FOREACH\<close> loop with its accumulator \<^verbatim>\<open>recno\<close> (64-bit, started at 0 by the
  caller); \<^verbatim>\<open>page->entries\<close> is 32-bit and is widened for the addition.
\<close>

fun col_var_records :: "WT_COL list \<Rightarrow> u64 \<Rightarrow> u64" where
  "col_var_records [] recno = recno"
| "col_var_records (cip # d) recno =
     col_var_records d (case col_ptr cip of None \<Rightarrow> recno + 1
                        | Some unpack \<Rightarrow> recno + rle unpack)"

definition record_count :: "WT_PAGE \<Rightarrow> WT_VSTUFF \<Rightarrow> WT_VSTUFF" where
  "record_count page vs =
     (case page of
        WT_PAGE_COL_FIX recno entries \<Rightarrow>
          vs\<lparr>record_total := record_total vs + ucast entries\<rparr>
      | WT_PAGE_COL_VAR recno d dsk \<Rightarrow>
          vs\<lparr>record_total := record_total vs + col_var_records d 0\<rparr>
      | _ \<Rightarrow> vs)"

text \<open>The third and fourth \<^verbatim>\<open>switch\<close>: key order on a row-store leaf, and the overflow
  cells of the three page types that can hold them.\<close>

definition row_leaf_chk :: "session \<Rightarrow> u32 \<Rightarrow> WT_PAGE \<Rightarrow> WT_VSTUFF \<Rightarrow> ret \<times> WT_VSTUFF" where
  "row_leaf_chk s paddr page vs =
     (case page of
        WT_PAGE_ROW_LEAF d dsk \<Rightarrow> verify_row_leaf_key_order s paddr d vs
      | _ \<Rightarrow> (OK, vs))"

definition overflow_chk :: "session \<Rightarrow> WT_PAGE \<Rightarrow> WT_VSTUFF \<Rightarrow> ret \<times> WT_VSTUFF" where
  "overflow_chk s page vs =
     (case page of
        WT_PAGE_COL_VAR recno d dsk \<Rightarrow> verify_overflow_cell s dsk vs
      | WT_PAGE_ROW_INT t dsk \<Rightarrow> verify_overflow_cell s dsk vs
      | WT_PAGE_ROW_LEAF d dsk \<Rightarrow> verify_overflow_cell s dsk vs
      | _ \<Rightarrow> (OK, vs))"

text \<open>
  \<^verbatim>\<open>__verify_tree\<close> up to its last \<^verbatim>\<open>switch\<close>: the progress counter (the report
  itself has no effect on the verification and is left out), the page's fragments, the
  optional dump of a diagnostic build, and the four checks above, each left through
  \<^verbatim>\<open>WT_RET\<close> or \<^verbatim>\<open>return (WT_ERROR)\<close> at the first non-zero status.
\<close>

definition verify_page ::
    "session \<Rightarrow> u32 \<Rightarrow> u32 \<Rightarrow> WT_PAGE \<Rightarrow> u64 \<Rightarrow> WT_VSTUFF \<Rightarrow> ret \<times> WT_VSTUFF" where
  "verify_page s addr sz page parent_recno vs =
     (case verify_addfrag s addr sz (vs\<lparr>fcnt := fcnt vs + 1\<rparr>) of
        (OK, vs1) \<Rightarrow>
          (case (if dumpfile vs1 then debug_page s addr else OK) of
             OK \<Rightarrow>
               (case recno_chk addr page parent_recno vs1 of
                  (OK, vs2) \<Rightarrow>
                    (case row_leaf_chk s addr page (record_count page vs2) of
                       (OK, vs3) \<Rightarrow> overflow_chk s page vs3
                     | (e, vs3) \<Rightarrow> (e, vs3))
                | (e, vs2) \<Rightarrow> (e, vs2))
           | e \<Rightarrow> (e, vs1))
      | (e, vs1) \<Rightarrow> (e, vs1))"

subsection \<open>The descent\<close>

text \<open>
  \<^verbatim>\<open>__verify_tree\<close> with the loops of its last \<^verbatim>\<open>switch\<close>:
  \<open>col_ref_loop\<close> is \<^verbatim>\<open>WT_COL_REF_FOREACH\<close> and \<open>row_ref_loop\<close> is
  \<^verbatim>\<open>WT_ROW_REF_FOREACH\<close> with its counter \<^verbatim>\<open>entry\<close>. In both, a failed
  \<^verbatim>\<open>__wt_page_in\<close> returns its status; otherwise the child is verified, the status of
  its eviction is merged with \<^verbatim>\<open>WT_TRET\<close>, and \<^verbatim>\<open>WT_RET_TEST(ret, ret)\<close> leaves the
  loop when the merged status is non-zero.
\<close>

fun verify_tree :: "session \<Rightarrow> WT_REF \<Rightarrow> u64 \<Rightarrow> WT_VSTUFF \<Rightarrow> ret \<times> WT_VSTUFF"
  and col_ref_loop :: "session \<Rightarrow> (u64 \<times> WT_REF) list \<Rightarrow> WT_VSTUFF \<Rightarrow> ret \<times> WT_VSTUFF"
  and row_ref_loop ::
    "session \<Rightarrow> u32 \<Rightarrow> u32 \<Rightarrow> (key \<times> WT_REF) list \<Rightarrow> WT_VSTUFF \<Rightarrow> ret \<times> WT_VSTUFF"
where
  "verify_tree s (WT_REF addr sz page rin revict) parent_recno vs =
     (case verify_page s addr sz page parent_recno vs of
        (OK, vs1) \<Rightarrow>
          (case page of
             WT_PAGE_COL_INT recno t \<Rightarrow> col_ref_loop s t vs1
           | WT_PAGE_ROW_INT t dsk \<Rightarrow> row_ref_loop s addr 0 t vs1
           | _ \<Rightarrow> (OK, vs1))
      | (e, vs1) \<Rightarrow> (e, vs1))"
| "col_ref_loop s [] vs = (OK, vs)"
| "col_ref_loop s ((crecno, WT_REF addr sz page rin revict) # t) vs =
     (if crecno \<noteq> record_total vs + 1
      then (WT_ERROR,
            vs\<lparr>errx := errx vs @ [Recno_mismatch addr crecno (record_total vs + 1)]\<rparr>)
      else (case rin of
              OK \<Rightarrow>
                (case verify_tree s (WT_REF addr sz page rin revict) crecno vs of
                   (r, vs1) \<Rightarrow>
                     if WT_TRET r revict \<noteq> OK then (WT_TRET r revict, vs1)
                     else col_ref_loop s t vs1)
            | e \<Rightarrow> (e, vs)))"
| "row_ref_loop s paddr entry [] vs = (OK, vs)"
| "row_ref_loop s paddr entry ((k, WT_REF addr sz page rin revict) # t) vs =
     (case (if entry \<noteq> 0 then verify_row_int_key_order s paddr k entry vs else (OK, vs)) of
        (OK, vs0) \<Rightarrow>
          (case rin of
             OK \<Rightarrow>
               (case verify_tree s (WT_REF addr sz page rin revict) 0 vs0 of
                  (r, vs1) \<Rightarrow>
                    if WT_TRET r revict \<noteq> OK then (WT_TRET r revict, vs1)
                    else row_ref_loop s paddr (entry + 1) t vs1)
           | e \<Rightarrow> (e, vs0))
      | (e, vs0) \<Rightarrow> (e, vs0))"

subsection \<open>Logical record counts\<close>

text \<open>
  The claim's words, for comparison with the walk: the logical record count of a slot of
  a variable-length leaf (1 for a null slot, the cell's \<open>rle\<close> otherwise), of a page
  (\<open>entries\<close> for a fixed-length leaf, the sum over the slots for a variable-length leaf,
  nothing for the other kinds), and of a subtree (the sum over its pages).
\<close>

definition slot_records :: "WT_COL \<Rightarrow> u64" where
  "slot_records cip = (case col_ptr cip of None \<Rightarrow> 1 | Some unpack \<Rightarrow> rle unpack)"

definition page_records :: "WT_PAGE \<Rightarrow> u64" where
  "page_records page =
     (case page of
        WT_PAGE_COL_FIX recno entries \<Rightarrow> ucast entries
      | WT_PAGE_COL_VAR recno d dsk \<Rightarrow> sum_list (map slot_records d)
      | _ \<Rightarrow> 0)"

fun ref_records :: "WT_REF \<Rightarrow> u64"
  and subtree_records :: "WT_PAGE \<Rightarrow> u64"
  and col_refs_records :: "(u64 \<times> WT_REF) list \<Rightarrow> u64"
  and row_refs_records :: "(key \<times> WT_REF) list \<Rightarrow> u64"
where
  "ref_records (WT_REF addr sz page rin revict) = subtree_records page"
| "subtree_records (WT_PAGE_COL_INT recno t) = col_refs_records t"
| "subtree_records (WT_PAGE_ROW_INT t dsk) = row_refs_records t"
| "subtree_records (WT_PAGE_COL_FIX recno entries) = page_records (WT_PAGE_COL_FIX recno entries)"
| "subtree_records (WT_PAGE_COL_VAR recno d dsk) = page_records (WT_PAGE_COL_VAR recno d dsk)"
| "subtree_records (WT_PAGE_ROW_LEAF d dsk) = 0"
| "subtree_records WT_PAGE_OVFL = 0"
| "col_refs_records [] = 0"
| "col_refs_records ((crecno, ref) # t) = ref_records ref + col_refs_records t"
| "row_refs_records [] = 0"
| "row_refs_records ((k, ref) # t) = ref_records ref + row_refs_records t"

subsection \<open>Column-store pages and row-store entry indices\<close>

text \<open>The claim's words: \<open>is_col_page page recno\<close> says that \<open>page\<close> is a column-store
  page (fixed-length leaf, variable-length leaf or internal) whose starting record number
  is \<open>recno\<close>.\<close>

definition is_col_page :: "WT_PAGE \<Rightarrow> u64 \<Rightarrow> bool" where
  "is_col_page page recno =
     (case page of
        WT_PAGE_COL_FIX r entries \<Rightarrow> r = recno
      | WT_PAGE_COL_VAR r d dsk \<Rightarrow> r = recno
      | WT_PAGE_COL_INT r t \<Rightarrow> r = recno
      | _ \<Rightarrow> False)"

text \<open>
  The claim's words, for comparison with \<open>row_ref_loop\<close>: the children of a row-store
  internal page visited in order, each with its index in the array; the key-order check
  is made for the entries with index at least 1 and for no other. What happens to a child
  after the check is as in the loop.
\<close>

fun row_children ::
    "session \<Rightarrow> u32 \<Rightarrow> nat \<Rightarrow> (key \<times> WT_REF) list \<Rightarrow> WT_VSTUFF \<Rightarrow> ret \<times> WT_VSTUFF" where
  "row_children s paddr i [] vs = (OK, vs)"
| "row_children s paddr i ((k, WT_REF addr sz page rin revict) # t) vs =
     (case (if 1 \<le> i then verify_row_int_key_order s paddr k (of_nat i) vs else (OK, vs)) of
        (OK, vs0) \<Rightarrow>
          (case rin of
             OK \<Rightarrow>
               (case verify_tree s (WT_REF addr sz page rin revict) 0 vs0 of
                  (r, vs1) \<Rightarrow>
                    if WT_TRET r revict \<noteq> OK then (WT_TRET r revict, vs1)
                    else row_children s paddr (Suc i) t vs1)
           | e \<Rightarrow> (e, vs0))
      | (e, vs0) \<Rightarrow> (e, vs0))"

text \<open>
  The claim's words, as a property of a tree: \<open>recnos_ok ref expected tot\<close> says that
  the page of \<open>ref\<close>, if it is a column-store page, starts at the record number
  \<open>expected\<close> handed down by its parent, and that below a column-store internal page
  every child reference, in order, carries the record number \<open>tot + 1\<close> for the
  running total \<open>tot\<close> at the moment it is considered, the child's page being held
  to that number in turn; the running total moves on by the records of each subtree
  passed. Below a row-store internal page the children are held to the number 0 that
  the walk hands them.
\<close>

fun recnos_ok :: "WT_REF \<Rightarrow> u64 \<Rightarrow> u64 \<Rightarrow> bool"
  and col_refs_ok :: "(u64 \<times> WT_REF) list \<Rightarrow> u64 \<Rightarrow> bool"
  and row_refs_ok :: "(key \<times> WT_REF) list \<Rightarrow> u64 \<Rightarrow> bool"
where
  "recnos_ok (WT_REF addr sz page rin revict) expected tot =
     (case page of
        WT_PAGE_COL_FIX recno entries \<Rightarrow> recno = expected
      | WT_PAGE_COL_VAR recno d dsk \<Rightarrow> recno = expected
      | WT_PAGE_COL_INT recno t \<Rightarrow> recno = expected \<and> col_refs_ok t tot
      | WT_PAGE_ROW_INT t dsk \<Rightarrow> row_refs_ok t tot
      | _ \<Rightarrow> True)"
| "col_refs_ok [] tot = True"
| "col_refs_ok ((crecno, WT_REF addr sz page rin revict) # t) tot =
     (crecno = tot + 1
      \<and> recnos_ok (WT_REF addr sz page rin revict) crecno tot
      \<and> col_refs_ok t (tot + ref_records (WT_REF addr sz page rin revict)))"
| "row_refs_ok [] tot = True"
| "row_refs_ok ((k, WT_REF addr sz page rin revict) # t) tot =
     (recnos_ok (WT_REF addr sz page rin revict) 0 tot
      \<and> row_refs_ok t (tot + ref_records (WT_REF addr sz page rin revict)))"

section \<open>The driver: \<^verbatim>\<open>__verify_int\<close>\<close>

text \<open>
  \<^verbatim>\<open>__verify_int(session, dumpfile)\<close>. The verifier state starts cleared
  (\<^verbatim>\<open>WT_CLEAR\<close>) but for \<open>dumpfile\<close>; \<open>max_addr\<close> is set to
  \<^verbatim>\<open>WT_ADDR_INVALID\<close> once the scratch buffer for \<open>max_key\<close> has been allocated. The inner \<open>case\<close> is the body
  up to the label \<^verbatim>\<open>err\<close>: a \<^verbatim>\<open>goto err\<close> after \<^verbatim>\<open>__wt_errx\<close> arrives there with
  \<^verbatim>\<open>ret == 0\<close> and leaves with \<^verbatim>\<open>WT_ERROR\<close>; a \<^verbatim>\<open>WT_ERR\<close> arrives with the
  collaborator's status. \<^verbatim>\<open>vs->frags\<close> is a \<^verbatim>\<open>uint32_t\<close>: the quotient computed in
  \<^verbatim>\<open>off_t\<close> arithmetic is reduced to 32 bits when it is stored, and the comparison with
  \<^verbatim>\<open>INT_MAX\<close> reads the stored value.
  Modelled from the spec: \<^verbatim>\<open>bit_alloc\<close> (missing) allocates the frag-map, one bit per
  fragment, all unset.
  After the label the root page is evicted and the status merged with \<^verbatim>\<open>WT_TRET\<close>; the
  root reference always holds a page here. The state is returned with the status so that
  the log and the counters can be observed; the C function frees it.
\<close>

definition verify_int :: "session \<Rightarrow> bool \<Rightarrow> ret \<times> WT_VSTUFF" where
  "verify_int s dump =
     (let vs0 = \<lparr>frags = 0, fragbits = [], record_total = 0, max_key = [],
                 max_addr = 0, fcnt = 0, dumpfile = dump, errx = []\<rparr>
      in case
           (case scr_alloc s 0 of
              OK \<Rightarrow>
                let vs = vs0\<lparr>max_addr := WT_ADDR_INVALID\<rparr>
                in if file_size s \<le> WT_BTREE_DESC_SECTOR
                   then (WT_ERROR, vs\<lparr>errx := errx vs @ [No_data_pages]\<rparr>)
                   else if (file_size s - WT_BTREE_DESC_SECTOR) mod uint (allocsize s) \<noteq> 0
                   then (WT_ERROR, vs\<lparr>errx := errx vs @ [Bad_file_size]\<rparr>)
                   else
                     let vs1 = vs\<lparr>frags := word_of_int (WT_OFF_TO_ADDR s (file_size s))\<rparr>
                     in if frags vs1 > INT_MAX
                        then (WT_ERROR, vs1\<lparr>errx := errx vs1 @ [Too_large]\<rparr>)
                        else
                          (case bit_alloc s (frags vs1) of
                             OK \<Rightarrow>
                               (case verify_tree s (root_page s) 1
                                       (vs1\<lparr>fragbits := replicate (unat (frags vs1)) False\<rparr>) of
                                  (OK, vs2) \<Rightarrow>
                                    (case verify_freelist s vs2 of
                                       (OK, vs3) \<Rightarrow> verify_checkfrag s vs3
                                     | (e, vs3) \<Rightarrow> (e, vs3))
                                | (e, vs2) \<Rightarrow> (e, vs2))
                           | e \<Rightarrow> (e, vs1))
            | e \<Rightarrow> (e, vs0)) of
           (r, vs') \<Rightarrow>
             (case root_page s of
                WT_REF addr sz page rin revict \<Rightarrow> (WT_TRET r revict, vs')))"

text \<open>\<^verbatim>\<open>__wt_verify\<close>: verification without the dump.\<close>

definition wt_verify :: "session \<Rightarrow> ret \<times> WT_VSTUFF" where
  "wt_verify s = verify_int s False"

section \<open>The statistics walker: \<^verbatim>\<open>__stat_page_col_var\<close>\<close>

text \<open>
  The two counters of \<^verbatim>\<open>WT_BTREE_STATS\<close> that \<^verbatim>\<open>__stat_page_col_var\<close> touches.
  Modelled from the spec: the macros \<^verbatim>\<open>WT_STAT_INCR\<close>, \<^verbatim>\<open>WT_STAT_DECR\<close> and
  \<^verbatim>\<open>WT_STAT_INCRV\<close> (missing) add 1, subtract 1 and add a value to a counter; the
  counters are unsigned 64-bit and wrap.
\<close>

record WT_BTREE_STATS =
  file_item_total_data :: u64
  file_item_col_deleted :: u64

text \<open>The inner loop over a slot's insert list, \<^verbatim>\<open>for (ins = WT_COL_INSERT(page, cip); ...)\<close>;
  each element is \<^verbatim>\<open>WT_UPDATE_DELETED_ISSET(ins->upd)\<close>.\<close>

fun stat_insert_loop :: "bool \<Rightarrow> bool list \<Rightarrow> WT_BTREE_STATS \<Rightarrow> WT_BTREE_STATS" where
  "stat_insert_loop orig_deleted [] stats = stats"
| "stat_insert_loop orig_deleted (deleted # ins) stats =
     stat_insert_loop orig_deleted ins
       (if deleted then
          (if orig_deleted then stats
           else stats\<lparr>file_item_col_deleted := file_item_col_deleted stats + 1,
                       file_item_total_data := file_item_total_data stats - 1\<rparr>)
        else
          (if \<not> orig_deleted then stats
           else stats\<lparr>file_item_col_deleted := file_item_col_deleted stats - 1,
                       file_item_total_data := file_item_total_data stats + 1\<rparr>))"

text \<open>The outer loop \<^verbatim>\<open>WT_COL_FOREACH(page, cip, i)\<close> and the function, which takes the
  slot array of the page and always returns 0.\<close>

fun stat_col_var_loop :: "WT_COL list \<Rightarrow> WT_BTREE_STATS \<Rightarrow> WT_BTREE_STATS" where
  "stat_col_var_loop [] stats = stats"
| "stat_col_var_loop (cip # d) stats =
     stat_col_var_loop d
       (case col_ptr cip of
          None \<Rightarrow>
            stat_insert_loop True (col_insert cip)
              (stats\<lparr>file_item_col_deleted := file_item_col_deleted stats + 1\<rparr>)
        | Some unpack \<Rightarrow>
            stat_insert_loop False (col_insert cip)
              (stats\<lparr>file_item_total_data := file_item_total_data stats + rle unpack\<rparr>))"

definition stat_page_col_var :: "WT_COL list \<Rightarrow> WT_BTREE_STATS \<Rightarrow> ret \<times> WT_BTREE_STATS" where
  "stat_page_col_var d stats = (OK, stat_col_var_loop d stats)"

text \<open>
  The claim's words, for comparison with the loops: what one slot contributes to each
  counter. A live slot (non-null) contributes its run length to the data count, and each
  tombstone on its insert list moves one from data to deletions; a null slot contributes
  one deletion, and each insert that is not a tombstone moves one from deletions to data.
\<close>

definition tombstones :: "WT_COL \<Rightarrow> nat" where
  "tombstones cip = length (filter (\<lambda>deleted. deleted) (col_insert cip))"

definition live_inserts :: "WT_COL \<Rightarrow> nat" where
  "live_inserts cip = length (filter (\<lambda>deleted. \<not> deleted) (col_insert cip))"

definition slot_data :: "WT_COL \<Rightarrow> u64" where
  "slot_data cip =
     (case col_ptr cip of
        None \<Rightarrow> of_nat (live_inserts cip)
      | Some unpack \<Rightarrow> rle unpack - of_nat (tombstones cip))"

definition slot_deleted :: "WT_COL \<Rightarrow> u64" where
  "slot_deleted cip =
     (case col_ptr cip of
        None \<Rightarrow> 1 - of_nat (live_inserts cip)
      | Some unpack \<Rightarrow> of_nat (tombstones cip))"

section \<open>Example inputs\<close>

text \<open>A bytewise lexicographic comparator; a file of eight 512-byte fragments whose tree
  is a single fixed-length column-store leaf of three records, with collaborators that
  all succeed; and a verifier state over eight fragments.\<close>

fun lex_compare :: "key \<Rightarrow> key \<Rightarrow> int" where
  "lex_compare [] [] = 0"
| "lex_compare [] (y # ys) = - 1"
| "lex_compare (x # xs) [] = 1"
| "lex_compare (x # xs) (y # ys) =
     (if (of_char x :: nat) < of_char y then - 1
      else if (of_char y :: nat) < of_char x then 1
      else lex_compare xs ys)"

definition ex_leaf :: WT_REF where
  "ex_leaf = WT_REF 0 4096 (WT_PAGE_COL_FIX 1 3) OK OK"

definition ex_session :: session where
  "ex_session = \<lparr>allocsize = 512, file_size = 4608, freeqa = [],
     btree_compare = lex_compare, root_page = ex_leaf,
     scr_alloc = (\<lambda>_. OK), buf_set = (\<lambda>_. OK),
     bit_alloc = (\<lambda>_. OK), disk_read = (\<lambda>_ _. OK), verify_dsk_chunk = (\<lambda>_ _. OK),
     debug_page = (\<lambda>_. OK)\<rparr>"

definition ex_vs :: "bool list \<Rightarrow> WT_VSTUFF" where
  "ex_vs bits = \<lparr>frags = 8, fragbits = bits, record_total = 0, max_key = [],
     max_addr = WT_ADDR_INVALID, fcnt = 0, dumpfile = False, errx = []\<rparr>"

text \<open>A column-store tree over fragments 0 to 3: an internal root whose children are a
  fixed-length leaf of three records and a variable-length leaf of three records (a cell
  with run length 2 and a null slot).\<close>

definition ex_fix :: WT_REF where
  "ex_fix = WT_REF 1 1024 (WT_PAGE_COL_FIX 1 3) OK OK"

definition ex_var :: WT_REF where
  "ex_var = WT_REF 3 512
     (WT_PAGE_COL_VAR 4
        [\<lparr>col_ptr = Some \<lparr>ctype = WT_CELL_OTHER, rle = 2, off_addr = 0, off_size = 0\<rparr>,
          col_insert = []\<rparr>,
         \<lparr>col_ptr = None, col_insert = []\<rparr>]
        (Some []))
     OK OK"

definition ex_col_root :: WT_REF where
  "ex_col_root = WT_REF 0 512 (WT_PAGE_COL_INT 1 [(1, ex_fix), (4, ex_var)]) OK OK"

text \<open>A row-store tree over fragments 0 to 2: an internal root with an empty 0th key and
  the fence "mango", over two leaves.\<close>

definition ex_row_leaf1 :: WT_REF where
  "ex_row_leaf1 = WT_REF 1 512
     (WT_PAGE_ROW_LEAF [(OK, ''apple''), (OK, ''banana'')] (Some [])) OK OK"

definition ex_row_leaf2 :: WT_REF where
  "ex_row_leaf2 = WT_REF 2 512
     (WT_PAGE_ROW_LEAF [(OK, ''mango''), (OK, ''pear'')] (Some [])) OK OK"

definition ex_row_root :: WT_REF where
  "ex_row_root = WT_REF 0 512
     (WT_PAGE_ROW_INT [([], ex_row_leaf1), (''mango'', ex_row_leaf2)] None) OK OK"

text \<open>The file of the first example grown to \<open>2^32 + 8\<close> fragments of 512 bytes (a little
  over 2 TB), with the same one-page tree.\<close>

definition ex_session_2tb :: session where
  "ex_session_2tb = ex_session\<lparr>file_size := 2199023260160\<rparr>"

text \<open>A column-store tree whose only leaf starts at record 7 where its parent says 1.\<close>

definition ex_bad_leaf :: WT_REF where
  "ex_bad_leaf = WT_REF 1 1024 (WT_PAGE_COL_FIX 7 3) OK OK"

definition ex_bad_root :: WT_REF where
  "ex_bad_root = WT_REF 0 512 (WT_PAGE_COL_INT 1 [(1, ex_bad_leaf)]) OK OK"

section \<open>Properties of the frag-map\<close>

lemma unat_succ: "i < (n::u32) \<Longrightarrow> unat (i + 1) = Suc (unat i)"
proof -
  assume "i < n"
  then have "unat i < unat n" by (simp add: word_less_nat_alt)
  moreover have "unat n < 2^32" using unsigned_less[of n] by simp
  ultimately have "unat i + 1 < 2^32" by simp
  then show ?thesis by (simp add: unat_word_ariths)
qed

lemma addfrag_test_iff:
  "addfrag_test bits addr n i =
     (\<exists>j. unat i \<le> j \<and> j < unat n \<and> bit_test bits (unat (addr + of_nat j)))"
proof (induction bits addr n i rule: addfrag_test.induct)
  case (1 bits addr n i)
  show ?case
  proof (cases "i < n")
    case False
    then have "unat n \<le> unat i" by (simp add: word_less_nat_alt)
    then have "\<not> (\<exists>j. unat i \<le> j \<and> j < unat n \<and> bit_test bits (unat (addr + of_nat j)))"
      by auto
    moreover have "\<not> addfrag_test bits addr n i"
      using False by (subst addfrag_test.simps) simp
    ultimately show ?thesis by blast
  next
    case True
    then have lt: "unat i < unat n" by (simp add: word_less_nat_alt)
    show ?thesis
    proof (cases "bit_test bits (unat (addr + i))")
      case hit: True
      have "addfrag_test bits addr n i"
        using True hit by (subst addfrag_test.simps) simp
      moreover have "unat i \<le> unat i \<and> unat i < unat n
            \<and> bit_test bits (unat (addr + of_nat (unat i)))"
        using lt hit by simp
      ultimately show ?thesis by blast
    next
      case miss: False
      have "addfrag_test bits addr n i = addfrag_test bits addr n (i + 1)"
        using True miss by (subst addfrag_test.simps) simp
      also have "\<dots> = (\<exists>j. Suc (unat i) \<le> j \<and> j < unat n
            \<and> bit_test bits (unat (addr + of_nat j)))"
        using "1.IH" [OF True miss] by (simp add: unat_succ [OF True])
      also have "\<dots> = (\<exists>j. unat i \<le> j \<and> j < unat n
            \<and> bit_test bits (unat (addr + of_nat j)))"
      proof (intro iffI; elim exE conjE)
        fix j assume "Suc (unat i) \<le> j" "j < unat n" "bit_test bits (unat (addr + of_nat j))"
        then show "\<exists>j. unat i \<le> j \<and> j < unat n \<and> bit_test bits (unat (addr + of_nat j))"
          by (intro exI [of _ j]) simp
      next
        fix j assume a: "unat i \<le> j" "j < unat n" "bit_test bits (unat (addr + of_nat j))"
        have "j \<noteq> unat i"
        proof
          assume "j = unat i"
          with a(3) miss show False by simp
        qed
        with a show "\<exists>j. Suc (unat i) \<le> j \<and> j < unat n \<and> bit_test bits (unat (addr + of_nat j))"
          by (intro exI [of _ j]) simp
      qed
      finally show ?thesis .
    qed
  qed
qed

lemma unat_addr_offset:
  assumes "unat (addr::u32) + n \<le> 2 ^ 32" and "j < n"
  shows "unat (addr + of_nat j) = unat addr + j"
proof -
  have "j < 2 ^ 32" using assms by simp
  then have "unat (of_nat j :: u32) = j"
    by (simp add: unat_of_nat)
  moreover have "unat addr + j < 2 ^ 32" using assms by simp
  ultimately show ?thesis
    by (simp add: unat_word_ariths)
qed

lemma fold_set_length:
  "length (fold (\<lambda>i bs. bs[i := True]) is bits) = length bits"
  by (induction "is" arbitrary: bits) simp_all

lemma fold_set_nth:
  "k < length bits \<Longrightarrow>
     fold (\<lambda>i bs. bs[i := True]) is bits ! k = (bits ! k \<or> k \<in> set is)"
proof (induction "is" arbitrary: bits)
  case Nil
  then show ?case by simp
next
  case (Cons i "is")
  have "fold (\<lambda>i bs. bs[i := True]) (i # is) bits ! k
      = (bits[i := True] ! k \<or> k \<in> set is)"
    using Cons.IH [of "bits[i := True]"] Cons.prems by simp
  also have "\<dots> = (bits ! k \<or> k \<in> set (i # is))"
    using Cons.prems by (cases "k = i") simp_all
  finally show ?case .
qed

lemma length_bit_nset: "length (bit_nset bits a b) = length bits"
  by (simp add: bit_nset_def fold_set_length)

lemma nth_bit_nset:
  "k < length bits \<Longrightarrow> bit_nset bits a b ! k = (bits ! k \<or> (a \<le> k \<and> k \<le> b))"
  by (auto simp: bit_nset_def fold_set_nth)


lemma addfrag_test_in_range:
  assumes len: "length bits = unat (nb::u32)"
    and rng: "unat addr + unat k \<le> unat nb"
  shows "addfrag_test bits addr k 0 =
     (\<exists>n. unat addr \<le> n \<and> n < unat addr + unat k \<and> bits ! n)"
proof -
  have "unat nb < 2 ^ 32"
    using unsigned_less [of nb] by simp
  with rng have b32: "unat addr + unat k \<le> 2 ^ 32"
    by simp
  have "(\<exists>j. j < unat k \<and> bit_test bits (unat (addr + of_nat j)))
      = (\<exists>n. unat addr \<le> n \<and> n < unat addr + unat k \<and> bits ! n)"
  proof (intro iffI; elim exE conjE)
    fix j assume j: "j < unat k" "bit_test bits (unat (addr + of_nat j))"
    have "unat (addr + of_nat j) = unat addr + j"
      using unat_addr_offset [OF b32 j(1)] .
    with j show "\<exists>n. unat addr \<le> n \<and> n < unat addr + unat k \<and> bits ! n"
      by (intro exI [of _ "unat addr + j"]) (simp add: bit_test_def)
  next
    fix n assume n: "unat addr \<le> n" "n < unat addr + unat k" "bits ! n"
    define j where "j = n - unat addr"
    have j: "j < unat k" "n = unat addr + j"
      using n by (simp_all add: j_def)
    have "unat (addr + of_nat j) = n"
      using unat_addr_offset [OF b32 j(1)] j(2) by simp
    moreover have "n < length bits"
      using n rng len by simp
    ultimately show "\<exists>j. j < unat k \<and> bit_test bits (unat (addr + of_nat j))"
      using j(1) n(3) by (intro exI [of _ j]) (simp add: bit_test_def)
  qed
  then show ?thesis
    by (simp add: addfrag_test_iff)
qed

lemma bit_nset_in_range:
  assumes len: "length bits = unat (nb::u32)"
    and rng: "unat (addr::u32) + unat (k::u32) \<le> unat nb"
    and pos: "0 < k"
  shows "bit_nset bits (unat addr) (unat (addr + (k - 1)))
     = map (\<lambda>n. bits ! n \<or> (unat addr \<le> n \<and> n < unat addr + unat k)) [0..<length bits]"
proof -
  have "unat nb < 2 ^ 32"
    using unsigned_less [of nb] by simp
  with rng have b32: "unat addr + unat k \<le> 2 ^ 32"
    by simp
  have kpos: "0 < unat k"
    using pos by (simp add: word_less_nat_alt)
  have "k - 1 = of_nat (unat k - 1)"
    using kpos by (simp add: of_nat_diff)
  moreover have "unat k - 1 < unat k"
    using kpos by simp
  ultimately have stop: "unat (addr + (k - 1)) = unat addr + (unat k - 1)"
    using unat_addr_offset [where j = "unat k - 1", OF b32] by simp
  show ?thesis
  proof (rule nth_equalityI)
    show "length (bit_nset bits (unat addr) (unat (addr + (k - 1))))
        = length (map (\<lambda>n. bits ! n \<or> (unat addr \<le> n \<and> n < unat addr + unat k)) [0..<length bits])"
      by (simp add: length_bit_nset)
  next
    fix i assume "i < length (bit_nset bits (unat addr) (unat (addr + (k - 1))))"
    then have i: "i < length bits"
      by (simp add: length_bit_nset)
    have "(i \<le> unat addr + (unat k - 1)) = (i < unat addr + unat k)"
      using kpos by arith
    then show "bit_nset bits (unat addr) (unat (addr + (k - 1))) ! i
        = map (\<lambda>n. bits ! n \<or> (unat addr \<le> n \<and> n < unat addr + unat k)) [0..<length bits] ! i"
      using i by (simp add: nth_bit_nset stop)
  qed
qed

text \<open>
  C1. For a call \<^verbatim>\<open>__verify_addfrag(addr, size)\<close> with \<open>k = size / allocsize\<close>
  fragments, on a bit string that holds \<open>frags\<close> bits and a range that lies inside
  it: if some bit of \<open>[addr, addr + k)\<close> is already set the call returns
  \<^verbatim>\<open>WT_ERROR\<close> and logs "file fragment at addr ... already verified"; otherwise it
  returns 0 and the new map has exactly the old bits plus those of \<open>[addr, addr + k)\<close>;
  with \<open>k = 0\<close> it returns 0 and changes nothing.
\<close>

theorem verify_addfrag_charges:
  assumes "allocsize s \<noteq> 0"
    and len: "length (fragbits vs) = unat (frags vs)"
    and rng: "unat addr + unat (sz div allocsize s) \<le> unat (frags vs)"
  shows "verify_addfrag s addr sz vs =
     (if \<exists>n. unat addr \<le> n \<and> n < unat addr + unat (sz div allocsize s) \<and> fragbits vs ! n
      then (WT_ERROR, vs\<lparr>errx := errx vs @ [Already_verified addr]\<rparr>)
      else (OK, vs\<lparr>fragbits :=
              map (\<lambda>n. fragbits vs ! n
                      \<or> (unat addr \<le> n \<and> n < unat addr + unat (sz div allocsize s)))
                [0..<length (fragbits vs)]\<rparr>))
     \<and> (if sz div allocsize s = 0 then verify_addfrag s addr sz vs = (OK, vs) else True)"
proof -
  define k where "k = sz div allocsize s"
  have test: "addfrag_test (fragbits vs) addr k 0 =
      (\<exists>n. unat addr \<le> n \<and> n < unat addr + unat k \<and> fragbits vs ! n)"
    using addfrag_test_in_range [OF len] rng by (simp add: k_def)
  show ?thesis
  proof (cases "k = 0")
    case True
    have "\<not> addfrag_test (fragbits vs) addr k 0"
      using test True by simp
    then have "verify_addfrag s addr sz vs = (OK, vs)"
      using True by (simp add: verify_addfrag_def k_def [symmetric])
    moreover have "map (\<lambda>n. fragbits vs ! n \<or> (unat addr \<le> n \<and> n < unat addr + unat k))
        [0..<length (fragbits vs)] = fragbits vs"
      using True by (intro nth_equalityI) auto
    ultimately show ?thesis
      using True test by (simp add: k_def [symmetric])
  next
    case False
    then have pos: "0 < k"
      by (simp add: word_greater_zero_iff)
    have "bit_nset (fragbits vs) (unat addr) (unat (addr + (k - 1)))
        = map (\<lambda>n. fragbits vs ! n \<or> (unat addr \<le> n \<and> n < unat addr + unat k))
            [0..<length (fragbits vs)]"
      using bit_nset_in_range [OF len _ pos] rng by (simp add: k_def)
    then show ?thesis
      using False pos test by (auto simp add: verify_addfrag_def k_def [symmetric])
  qed
qed

theorem verify_addfrag_charges_witness:
  "allocsize ex_session \<noteq> 0
   \<and> length (fragbits (ex_vs [True, True, False, False, False, False, False, True]))
       = unat (frags (ex_vs [True, True, False, False, False, False, False, True]))
   \<and> unat (2::u32) + unat ((1024::u32) div allocsize ex_session)
       \<le> unat (frags (ex_vs [True, True, False, False, False, False, False, True]))
   \<and> verify_addfrag ex_session 2 1024 (ex_vs [True, True, False, False, False, False, False, True])
       = (OK, ex_vs [True, True, True, True, False, False, False, True])
   \<and> unat (6::u32) + unat ((1024::u32) div allocsize ex_session)
       \<le> unat (frags (ex_vs [True, True, False, False, False, False, False, True]))
   \<and> verify_addfrag ex_session 6 1024 (ex_vs [True, True, False, False, False, False, False, True])
       = (WT_ERROR, (ex_vs [True, True, False, False, False, False, False, True])
            \<lparr>errx := [Already_verified 6]\<rparr>)"
proof -
  let ?vs = "ex_vs [True, True, False, False, False, False, False, True]"
  have h1: "allocsize ex_session \<noteq> 0"
    by (simp add: ex_session_def)
  have h2: "length (fragbits ?vs) = unat (frags ?vs)"
    by (simp add: ex_vs_def)
  have h3: "unat (2::u32) + unat ((1024::u32) div allocsize ex_session) \<le> unat (frags ?vs)"
    by (simp add: ex_vs_def ex_session_def)
  have h4: "unat (6::u32) + unat ((1024::u32) div allocsize ex_session) \<le> unat (frags ?vs)"
    by (simp add: ex_vs_def ex_session_def)
  have k: "unat ((1024::u32) div allocsize ex_session) = 2"
    by (simp add: ex_session_def)
  have free: "\<not> (\<exists>n. unat (2::u32) \<le> n
      \<and> n < unat (2::u32) + unat ((1024::u32) div allocsize ex_session) \<and> fragbits ?vs ! n)"
  proof
    assume "\<exists>n. unat (2::u32) \<le> n
      \<and> n < unat (2::u32) + unat ((1024::u32) div allocsize ex_session) \<and> fragbits ?vs ! n"
    then obtain n where n: "2 \<le> n" "n < 4" "fragbits ?vs ! n"
      using k by auto
    then have "n = 2 \<or> n = 3" by arith
    with n(3) show False by (auto simp: ex_vs_def)
  qed
  have used: "\<exists>n. unat (6::u32) \<le> n
      \<and> n < unat (6::u32) + unat ((1024::u32) div allocsize ex_session) \<and> fragbits ?vs ! n"
    using k by (intro exI [of _ 7]) (simp add: ex_vs_def)
  have up: "[0..<8] = [0, 1, 2, 3, 4, 5, 6, 7::nat]"
    by (simp add: upt_rec)
  have a: "verify_addfrag ex_session 2 1024 ?vs
      = (OK, ex_vs [True, True, True, True, False, False, False, True])"
    using verify_addfrag_charges [OF h1 h2 h3] free k
    by (simp add: ex_vs_def up)
  have b: "verify_addfrag ex_session 6 1024 ?vs = (WT_ERROR, ?vs\<lparr>errx := [Already_verified 6]\<rparr>)"
    using verify_addfrag_charges [OF h1 h2 h4] used
    by (simp add: ex_vs_def)
  show ?thesis
    using h1 h2 h3 h4 a b by simp
qed

text \<open>
  C10. When \<^verbatim>\<open>__verify_addfrag\<close> returns the duplicate-reference error, the frag-map
  is as it was before the call: the only change to the verifier state is the logged
  diagnostic. The test loop runs to its end before \<^verbatim>\<open>bit_nset\<close> is reached.
\<close>

theorem verify_addfrag_error_keeps_map:
  "fst (verify_addfrag s addr sz vs) = WT_ERROR \<Longrightarrow>
     fragbits (snd (verify_addfrag s addr sz vs)) = fragbits vs
     \<and> snd (verify_addfrag s addr sz vs) = vs\<lparr>errx := errx vs @ [Already_verified addr]\<rparr>"
  by (simp add: verify_addfrag_def Let_def split: if_splits)

theorem verify_addfrag_error_keeps_map_witness:
  "fst (verify_addfrag ex_session 6 1024
          (ex_vs [True, True, False, False, False, False, False, True])) = WT_ERROR
   \<and> fragbits (snd (verify_addfrag ex_session 6 1024
          (ex_vs [True, True, False, False, False, False, False, True])))
       = [True, True, False, False, False, False, False, True]"
proof -
  let ?vs = "ex_vs [True, True, False, False, False, False, False, True]"
  have "addfrag_test (fragbits ?vs) 6 2 0"
    by (simp add: addfrag_test.simps bit_test_def ex_vs_def)
  then have h: "fst (verify_addfrag ex_session 6 1024 ?vs) = WT_ERROR"
    by (simp add: verify_addfrag_def ex_session_def)
  show ?thesis
    using h verify_addfrag_error_keeps_map [OF h] by (simp add: ex_vs_def)
qed


section \<open>Properties of the coverage audit\<close>

subsection \<open>The loop against the left-to-right scan\<close>

lemma window_split:
  "w = replicate (length w) True \<or> (\<exists>q rest. w = replicate q True @ False # rest)"
proof (induction w)
  case Nil
  then show ?case by simp
next
  case (Cons b w)
  show ?case
  proof (cases b)
    case False
    then have "b # w = replicate 0 True @ False # w" by simp
    then show ?thesis by blast
  next
    case True
    from Cons.IH show ?thesis
    proof
      assume "w = replicate (length w) True"
      then have "b # w = replicate (length (b # w)) True"
        using True by simp
      then show ?thesis ..
    next
      assume "\<exists>q rest. w = replicate q True @ False # rest"
      then obtain q rest where "w = replicate q True @ False # rest" by blast
      then have "b # w = replicate (Suc q) True @ False # rest"
        using True by simp
      then show ?thesis by blast
    qed
  qed
qed

lemma bit_ffc_all_set:
  "take (nat n) bits = replicate m True \<Longrightarrow> bit_ffc bits n = - 1"
  by (simp add: bit_ffc_def Let_def)

lemma bit_ffc_first_clear:
  "take (nat n) bits = replicate q True @ False # rest \<Longrightarrow> bit_ffc bits n = int q"
proof -
  assume win: "take (nat n) bits = replicate q True @ False # rest"
  have "takeWhile (\<lambda>b. b) (replicate q True @ False # rest) = replicate q True"
    by (induction q) simp_all
  then show ?thesis
    by (simp add: bit_ffc_def Let_def win)
qed

lemma window_after_set:
  assumes "take (nat n) bits = replicate q True @ False # rest"
  shows "take (nat n) (bit_set bits q) = replicate (Suc q) True @ rest"
proof -
  have "take (nat n) (bits[q := True]) = (replicate q True @ False # rest)[q := True]"
    using assms by (simp add: take_update_swap)
  also have "\<dots> = replicate q True @ True # rest"
    by (simp add: list_update_append)
  also have "\<dots> = replicate (Suc q) True @ rest"
    by (simp add: replicate_append_same)
  finally show ?thesis by (simp add: bit_set_def)
qed

lemma scan_runs_skip_set:
  "scan_runs i None (replicate d True @ xs) = scan_runs (i + d) None xs"
  by (induction d arbitrary: i) simp_all

lemma scan_runs_close:
  "scan_runs i (Some (a, e)) (replicate (Suc d) True @ xs) = (a, e) # scan_runs (Suc i + d) None xs"
  by (simp add: scan_runs_skip_set)

lemma scan_runs_all_set_None: "scan_runs i None (replicate m True) = []"
  using scan_runs_skip_set [of i m "[]"] by simp

lemma scan_runs_all_set_Some: "scan_runs i (Some (a, e)) (replicate m True) = [(a, e)]"
  by (cases m) (simp_all add: scan_runs_all_set_None)

lemma scan_runs_Some_nonempty: "scan_runs i (Some r) xs \<noteq> []"
proof (induction xs arbitrary: i r)
  case Nil
  then show ?case by simp
next
  case (Cons x xs)
  then show ?case by (cases r) simp
qed

lemma run_msg_int:
  "(if int a = int e then Never_verified (int a) else Never_verified_range (int a) (int e))
     = run_msg (a, e)"
  by (simp add: run_msg_def)

lemma checkfrag_loop_pending:
  "take (nat n) (fragbits vs) = replicate (Suc e) True @ rest \<Longrightarrow>
     fst (checkfrag_loop n (int a) (int e) r vs) = WT_ERROR
     \<and> errx (snd (checkfrag_loop n (int a) (int e) r vs))
         = errx vs @ map run_msg (scan_runs (Suc e) (Some (a, e)) rest)"
proof (induction "length rest" arbitrary: rest vs a e r rule: less_induct)
  case less
  note win = less.prems
  from window_split [of rest] show ?case
  proof
    assume all: "rest = replicate (length rest) True"
    then have "take (nat n) (fragbits vs) = replicate (Suc e + length rest) True"
      using win by (metis replicate_add)
    then have ffc: "bit_ffc (fragbits vs) n = - 1"
      by (rule bit_ffc_all_set)
    have "checkfrag_loop n (int a) (int e) r vs
        = (WT_ERROR, vs\<lparr>errx := errx vs @ [run_msg (a, e)]\<rparr>)"
      by (subst checkfrag_loop.simps) (simp add: ffc Let_def run_msg_def)
    moreover have "scan_runs (Suc e) (Some (a, e)) rest = [(a, e)]"
      using all scan_runs_all_set_Some [of "Suc e" a e "length rest"] by simp
    ultimately show ?thesis by simp
  next
    assume "\<exists>d rest2. rest = replicate d True @ False # rest2"
    then obtain d rest2 where rest: "rest = replicate d True @ False # rest2" by blast
    define q where "q = Suc e + d"
    have win2: "take (nat n) (fragbits vs) = replicate q True @ False # rest2"
      using win rest by (simp add: q_def replicate_add)
    have ffc: "bit_ffc (fragbits vs) n = int q"
      using win2 by (rule bit_ffc_first_clear)
    define vs' where "vs' = vs\<lparr>fragbits := bit_set (fragbits vs) q\<rparr>"
    have win': "take (nat n) (fragbits vs') = replicate (Suc q) True @ rest2"
      using window_after_set [OF win2] by (simp add: vs'_def)
    have shorter: "length rest2 < length rest"
      using rest by simp
    show ?thesis
    proof (cases d)
      case 0
      then have q: "q = Suc e" by (simp add: q_def)
      have eq: "int e = int q - 1" using q by simp
      have "checkfrag_loop n (int a) (int e) r vs = checkfrag_loop n (int a) (int q) r vs'"
        by (subst checkfrag_loop.simps) (simp add: ffc Let_def eq vs'_def)
      moreover have "scan_runs (Suc e) (Some (a, e)) rest = scan_runs (Suc q) (Some (a, q)) rest2"
        using rest 0 q by simp
      moreover have "errx vs' = errx vs" by (simp add: vs'_def)
      ultimately show ?thesis
        using less.hyps [OF shorter win', of a r] by simp
    next
      case (Suc d')
      then have ne: "int e \<noteq> int q - 1" by (simp add: q_def)
      define vs2 where "vs2 = vs'\<lparr>errx := errx vs' @ [run_msg (a, e)]\<rparr>"
      have win'': "take (nat n) (fragbits vs2) = replicate (Suc q) True @ rest2"
        using win' by (simp add: vs2_def)
      have "checkfrag_loop n (int a) (int e) r vs = checkfrag_loop n (int q) (int q) WT_ERROR vs2"
        using ne by (subst checkfrag_loop.simps)
          (simp add: ffc Let_def vs'_def vs2_def run_msg_def)
      moreover have "scan_runs (Suc e) (Some (a, e)) rest
          = (a, e) # scan_runs (Suc q) (Some (q, q)) rest2"
        using rest Suc by (simp add: q_def scan_runs_skip_set)
      moreover have "errx vs2 = errx vs @ [run_msg (a, e)]"
        by (simp add: vs2_def vs'_def)
      ultimately show ?thesis
        using less.hyps [OF shorter win'', of q WT_ERROR] by simp
    qed
  qed
qed

lemma checkfrag_loop_start:
  "fst (checkfrag_loop n (- 1) (- 1) r vs)
      = (if scan_runs 0 None (take (nat n) (fragbits vs)) = [] then r else WT_ERROR)
   \<and> errx (snd (checkfrag_loop n (- 1) (- 1) r vs))
      = errx vs @ map run_msg (scan_runs 0 None (take (nat n) (fragbits vs)))"
proof -
  define w where "w = take (nat n) (fragbits vs)"
  from window_split [of w] show ?thesis
  proof
    assume all: "w = replicate (length w) True"
    then have ffc: "bit_ffc (fragbits vs) n = - 1"
      using bit_ffc_all_set [of n "fragbits vs" "length w"] by (simp add: w_def)
    have "checkfrag_loop n (- 1) (- 1) r vs = (r, vs)"
      by (subst checkfrag_loop.simps) (simp add: ffc Let_def)
    moreover have "scan_runs 0 None w = []"
      using all scan_runs_all_set_None [of 0 "length w"] by simp
    ultimately show ?thesis by (simp add: w_def)
  next
    assume "\<exists>q rest. w = replicate q True @ False # rest"
    then obtain q rest where w: "w = replicate q True @ False # rest" by blast
    then have win: "take (nat n) (fragbits vs) = replicate q True @ False # rest"
      by (simp add: w_def)
    have ffc: "bit_ffc (fragbits vs) n = int q"
      using win by (rule bit_ffc_first_clear)
    define vs' where "vs' = vs\<lparr>fragbits := bit_set (fragbits vs) q\<rparr>"
    have win': "take (nat n) (fragbits vs') = replicate (Suc q) True @ rest"
      using window_after_set [OF win] by (simp add: vs'_def)
    have "checkfrag_loop n (- 1) (- 1) r vs = checkfrag_loop n (int q) (int q) r vs'"
      by (subst checkfrag_loop.simps) (simp add: ffc Let_def vs'_def)
    moreover have "scan_runs 0 None w = scan_runs (Suc q) (Some (q, q)) rest"
      using w by (simp add: scan_runs_skip_set)
    moreover have "scan_runs (Suc q) (Some (q, q)) rest \<noteq> []"
      by (rule scan_runs_Some_nonempty)
    moreover have "errx vs' = errx vs" by (simp add: vs'_def)
    ultimately show ?thesis
      using checkfrag_loop_pending [OF win', of q r] by (simp add: w_def)
  qed
qed

subsection \<open>The scan lists exactly the maximal runs of unset bits\<close>

lemma run_start_clear: "unverified_run B a b \<Longrightarrow> \<not> B ! a"
  by (simp add: unverified_run_def)

lemma run_bounds: "unverified_run B a b \<Longrightarrow> a \<le> b \<and> b < length B"
  by (simp add: unverified_run_def)

lemma run_unique:
  assumes se: "unverified_run B s e" and ab: "unverified_run B a b"
    and "s \<le> a" and "a \<le> e"
  shows "a = s \<and> b = e"
proof -
  have a: "a = s"
  proof (rule ccontr)
    assume "a \<noteq> s"
    then have "s \<le> a - 1" "a - 1 \<le> e" "a \<noteq> 0"
      using assms(3,4) by simp_all
    then have "\<not> B ! (a - 1)" "B ! (a - 1)"
      using se ab by (simp_all add: unverified_run_def)
    then show False by simp
  qed
  have "\<not> b < e"
  proof
    assume "b < e"
    then have "s \<le> Suc b" "Suc b \<le> e" "Suc b \<noteq> length B"
      using ab a se by (simp_all add: unverified_run_def)
    then have "\<not> B ! Suc b" "B ! Suc b"
      using se ab by (simp_all add: unverified_run_def)
    then show False by simp
  qed
  moreover have "\<not> e < b"
  proof
    assume "e < b"
    then have "a \<le> Suc e" "Suc e \<le> b" "Suc e \<noteq> length B"
      using ab a se by (simp_all add: unverified_run_def)
    then have "\<not> B ! Suc e" "B ! Suc e"
      using se ab by (simp_all add: unverified_run_def)
    then show False by simp
  qed
  ultimately show ?thesis using a by simp
qed

lemma scan_runs_char:
  assumes "drop i B = rest"
    and "case pend of None \<Rightarrow> i = 0 \<or> B ! (i - 1)
         | Some (s, e) \<Rightarrow> Suc e = i \<and> s \<le> e \<and> (\<forall>j. s \<le> j \<and> j \<le> e \<longrightarrow> \<not> B ! j)
                          \<and> (s = 0 \<or> B ! (s - 1))"
    and "i \<le> length B"
  shows "set (scan_runs i pend rest)
       = {(a, b). unverified_run B a b \<and> (case pend of None \<Rightarrow> i | Some (s, e) \<Rightarrow> s) \<le> a}
     \<and> distinct (scan_runs i pend rest)"
  using assms
proof (induction rest arbitrary: i pend)
  case Nil
  then have len: "i = length B" by simp
  show ?case
  proof (cases pend)
    case None
    have "\<not> (unverified_run B a b \<and> i \<le> a)" for a b
      using len run_bounds [of B a b] by auto
    then show ?thesis using None by auto
  next
    case (Some r)
    obtain s e where r: "r = (s, e)" by (cases r)
    have inv: "Suc e = i" "s \<le> e" "\<forall>j. s \<le> j \<and> j \<le> e \<longrightarrow> \<not> B ! j" "s = 0 \<or> B ! (s - 1)"
      using Nil.prems(2) Some r by simp_all
    have se: "unverified_run B s e"
      using inv len by (simp add: unverified_run_def)
    have "(a, b) = (s, e)" if "unverified_run B a b" "s \<le> a" for a b
    proof -
      have "a \<le> b" "b < length B" using run_bounds [OF that(1)] by simp_all
      then have "a \<le> e" using inv(1) len by arith
      then show ?thesis using run_unique [OF se that] by simp
    qed
    then have "(unverified_run B a b \<and> s \<le> a) = ((a, b) = (s, e))" for a b
      using se by blast
    then have "{(a, b). unverified_run B a b \<and> s \<le> a} = {(s, e)}"
      by simp
    then show ?thesis using Some r by simp
  qed
next
  case (Cons x xs)
  have i: "i < length B"
  proof (rule ccontr)
    assume "\<not> i < length B"
    then have "drop i B = []" by simp
    with Cons.prems(1) show False by simp
  qed
  have x: "B ! i = x" and xs: "drop (Suc i) B = xs"
    using Cons.prems(1) Cons_nth_drop_Suc [OF i] by simp_all
  have i': "Suc i \<le> length B" using i by simp
  show ?case
  proof (cases pend)
    case None
    then have left: "i = 0 \<or> B ! (i - 1)" using Cons.prems(2) by simp
    show ?thesis
    proof (cases x)
      case True
      have "set (scan_runs (Suc i) None xs) = {(a, b). unverified_run B a b \<and> Suc i \<le> a}
          \<and> distinct (scan_runs (Suc i) None xs)"
        using Cons.IH [OF xs _ i', of None] x True by simp
      moreover have "(unverified_run B a b \<and> Suc i \<le> a) = (unverified_run B a b \<and> i \<le> a)" for a b
        using run_start_clear [of B a b] x True by (cases "a = i") auto
      ultimately show ?thesis using None True by simp
    next
      case False
      have "\<not> B ! j" if "i \<le> j \<and> j \<le> i" for j
      proof -
        from that have "j = i" by simp
        then show ?thesis using x False by simp
      qed
      then have "\<forall>j. i \<le> j \<and> j \<le> i \<longrightarrow> \<not> B ! j"
        by blast
      then have "set (scan_runs (Suc i) (Some (i, i)) xs) = {(a, b). unverified_run B a b \<and> i \<le> a}
          \<and> distinct (scan_runs (Suc i) (Some (i, i)) xs)"
        using Cons.IH [OF xs _ i', of "Some (i, i)"] left by simp
      then show ?thesis using None False by simp
    qed
  next
    case (Some r)
    obtain s e where r: "r = (s, e)" by (cases r)
    have inv: "Suc e = i" "s \<le> e" "\<forall>j. s \<le> j \<and> j \<le> e \<longrightarrow> \<not> B ! j" "s = 0 \<or> B ! (s - 1)"
      using Cons.prems(2) Some r by simp_all
    show ?thesis
    proof (cases x)
      case True
      have ih: "set (scan_runs (Suc i) None xs) = {(a, b). unverified_run B a b \<and> Suc i \<le> a}
          \<and> distinct (scan_runs (Suc i) None xs)"
        using Cons.IH [OF xs _ i', of None] x True by simp
      have se: "unverified_run B s e"
        using inv i x True by (auto simp: unverified_run_def)
      have split: "(unverified_run B a b \<and> s \<le> a)
          = ((a, b) = (s, e) \<or> (unverified_run B a b \<and> Suc i \<le> a))" for a b
      proof (intro iffI; (elim disjE conjE)?)
        assume ab: "unverified_run B a b" "s \<le> a"
        show "(a, b) = (s, e) \<or> (unverified_run B a b \<and> Suc i \<le> a)"
        proof (cases "a \<le> e")
          case True
          then show ?thesis using run_unique [OF se ab] by simp
        next
          case False
          moreover have "a \<noteq> i"
            using run_start_clear [OF ab(1)] x \<open>x\<close> by auto
          ultimately show ?thesis using ab inv(1) by auto
        qed
      next
        assume "(a, b) = (s, e)"
        then show "unverified_run B a b \<and> s \<le> a" using se by simp
      next
        assume "unverified_run B a b" "Suc i \<le> a"
        then show "unverified_run B a b \<and> s \<le> a" using inv by simp
      qed
      have "(s, e) \<notin> set (scan_runs (Suc i) None xs)"
        using ih inv by auto
      moreover have "set ((s, e) # scan_runs (Suc i) None xs)
          = {(a, b). unverified_run B a b \<and> s \<le> a}"
        using ih split by auto
      ultimately show ?thesis using Some r True ih by simp
    next
      case False
      have "\<not> B ! j" if "s \<le> j \<and> j \<le> i" for j
      proof (cases "j = i")
        case True
        then show ?thesis using x False by simp
      next
        case False
        then have "s \<le> j \<and> j \<le> e" using that inv(1) by auto
        then show ?thesis using inv(3) by blast
      qed
      then have "\<forall>j. s \<le> j \<and> j \<le> i \<longrightarrow> \<not> B ! j"
        by blast
      then have "set (scan_runs (Suc i) (Some (s, i)) xs) = {(a, b). unverified_run B a b \<and> s \<le> a}
          \<and> distinct (scan_runs (Suc i) (Some (s, i)) xs)"
        using Cons.IH [OF xs _ i', of "Some (s, i)"] inv by simp
      then show ?thesis using Some r False by simp
    qed
  qed
qed

lemma scan_runs_complete:
  "set (scan_runs 0 None bits) = {(a, b). unverified_run bits a b}
   \<and> distinct (scan_runs 0 None bits)"
  using scan_runs_char [of 0 bits bits None] by simp

subsection \<open>The audit\<close>

lemma scan_runs_empty_iff:
  "(scan_runs 0 None bits = []) = (\<not> (\<exists>i. i < length bits \<and> \<not> bits ! i))"
proof -
  from window_split [of bits] show ?thesis
  proof
    assume all: "bits = replicate (length bits) True"
    have "bits ! i" if "i < length bits" for i
    proof -
      have "replicate (length bits) True ! i" using that by simp
      then show ?thesis using all by simp
    qed
    moreover have "scan_runs 0 None bits = []"
      using all scan_runs_all_set_None [of 0 "length bits"] by simp
    ultimately show ?thesis by blast
  next
    assume "\<exists>q rest. bits = replicate q True @ False # rest"
    then obtain q rest where b: "bits = replicate q True @ False # rest" by blast
    then have "scan_runs 0 None bits = scan_runs (Suc q) (Some (q, q)) rest"
      by (simp add: scan_runs_skip_set)
    then have "scan_runs 0 None bits \<noteq> []"
      using scan_runs_Some_nonempty [of "Suc q" "(q, q)" rest] by simp
    moreover have "q < length bits \<and> \<not> bits ! q"
      using b by (simp add: nth_append)
    ultimately show ?thesis by blast
  qed
qed

lemma sint_frags:
  assumes "(x::u32) \<le> INT_MAX"
  shows "sint x = int (unat x)"
proof -
  have "unat x \<le> unat INT_MAX"
    using assms by (simp add: word_le_nat_alt)
  then have "unat x \<le> 2147483647"
    by (simp add: INT_MAX_def)
  moreover have eq: "uint x = int (unat x)"
    by (rule uint_nat)
  moreover have p: "(2::int) ^ 31 = 2147483648"
    by simp
  ultimately have "uint x < 2 ^ 31"
    unfolding p by linarith
  moreover have "- (2 ^ 31) \<le> uint x"
    unfolding p using eq by linarith
  ultimately have "signed_take_bit 31 (uint x) = uint x"
    by (rule signed_take_bit_int_eq_self [rotated])
  moreover have "sint x = signed_take_bit 31 (uint x)"
    by (simp add: sint_uint)
  ultimately show ?thesis
    using eq by linarith
qed

text \<open>
  C5. The coverage audit \<^verbatim>\<open>__verify_checkfrag\<close>, on a map of \<open>frags \<le> INT_MAX\<close>
  bits: it returns \<^verbatim>\<open>WT_ERROR\<close> if and only if some bit of the map is unset (and 0
  otherwise), and the diagnostics it appends are \<open>run_msg\<close> of the runs listed by
  \<open>scan_runs\<close>; that list has no repetition and holds exactly the pairs \<open>(a, b)\<close> for
  which \<open>[a, b]\<close> is a maximal run of consecutive unset bits. So there is exactly one
  diagnostic per maximal run, in the single-fragment form for a run of length 1 and in
  the range form, naming first and last fragment, for a longer one.
\<close>

theorem verify_checkfrag_reports_runs:
  assumes len: "length (fragbits vs) = unat (frags vs)"
    and small: "frags vs \<le> INT_MAX"
  shows "fst (verify_checkfrag s vs)
       = (if \<exists>i. i < length (fragbits vs) \<and> \<not> fragbits vs ! i then WT_ERROR else OK)
     \<and> errx (snd (verify_checkfrag s vs))
       = errx vs @ map run_msg (scan_runs 0 None (fragbits vs))
     \<and> distinct (scan_runs 0 None (fragbits vs))
     \<and> (\<forall>a b. ((a, b) \<in> set (scan_runs 0 None (fragbits vs)))
           = unverified_run (fragbits vs) a b)"
proof -
  have "nat (sint (frags vs)) = length (fragbits vs)"
    using sint_frags [OF small] len by simp
  then have win: "take (nat (sint (frags vs))) (fragbits vs) = fragbits vs"
    by simp
  have loop: "fst (verify_checkfrag s vs)
        = (if scan_runs 0 None (fragbits vs) = [] then OK else WT_ERROR)"
    "errx (snd (verify_checkfrag s vs)) = errx vs @ map run_msg (scan_runs 0 None (fragbits vs))"
    using checkfrag_loop_start [of "sint (frags vs)" OK vs]
    by (simp_all add: verify_checkfrag_def win)
  have runs: "set (scan_runs 0 None (fragbits vs)) = {(a, b). unverified_run (fragbits vs) a b}"
    "distinct (scan_runs 0 None (fragbits vs))"
    using scan_runs_complete [of "fragbits vs"] by simp_all
  have "\<forall>a b. ((a, b) \<in> set (scan_runs 0 None (fragbits vs))) = unverified_run (fragbits vs) a b"
    using runs(1) by simp
  then show ?thesis
    using loop runs(2) scan_runs_empty_iff [of "fragbits vs"] by simp
qed

theorem verify_checkfrag_reports_runs_witness:
  "length (fragbits (ex_vs [True, False, False, True, False, True, True, False]))
     = unat (frags (ex_vs [True, False, False, True, False, True, True, False]))
   \<and> frags (ex_vs [True, False, False, True, False, True, True, False]) \<le> INT_MAX
   \<and> fst (verify_checkfrag ex_session (ex_vs [True, False, False, True, False, True, True, False]))
       = WT_ERROR
   \<and> errx (snd (verify_checkfrag ex_session
               (ex_vs [True, False, False, True, False, True, True, False])))
       = [Never_verified_range 1 2, Never_verified 4, Never_verified 7]
   \<and> unverified_run [True, False, False, True, False, True, True, False] 1 2
   \<and> fst (verify_checkfrag ex_session (ex_vs [True, True, True, True, True, True, True, True]))
       = OK"
proof -
  let ?vs = "ex_vs [True, False, False, True, False, True, True, False]"
  let ?full = "ex_vs [True, True, True, True, True, True, True, True]"
  have h1: "length (fragbits ?vs) = unat (frags ?vs)"
    by (simp add: ex_vs_def)
  have h2: "frags ?vs \<le> INT_MAX"
    by (simp add: ex_vs_def INT_MAX_def)
  have g1: "length (fragbits ?full) = unat (frags ?full)"
    by (simp add: ex_vs_def)
  have g2: "frags ?full \<le> INT_MAX"
    by (simp add: ex_vs_def INT_MAX_def)
  have runs: "scan_runs 0 None (fragbits ?vs) = [(1, 2), (4, 4), (7, 7)]"
    by (simp add: ex_vs_def)
  have hole: "\<exists>i. i < length (fragbits ?vs) \<and> \<not> fragbits ?vs ! i"
    by (intro exI [of _ 1]) (simp add: ex_vs_def)
  have nohole: "\<not> (\<exists>i. i < length (fragbits ?full) \<and> \<not> fragbits ?full ! i)"
    using scan_runs_empty_iff [of "fragbits ?full"] by (simp add: ex_vs_def)
  note t = verify_checkfrag_reports_runs [OF h1 h2, of ex_session]
  note u = verify_checkfrag_reports_runs [OF g1 g2, of ex_session]
  have "(1, 2) \<in> set (scan_runs 0 None (fragbits ?vs))"
    using runs by simp
  then have "unverified_run (fragbits ?vs) 1 2"
    using t by blast
  then have run: "unverified_run [True, False, False, True, False, True, True, False] 1 2"
    by (simp add: ex_vs_def)
  have r1: "fst (verify_checkfrag ex_session ?vs) = WT_ERROR"
    using t hole by simp
  have "errx (snd (verify_checkfrag ex_session ?vs))
      = errx ?vs @ map run_msg (scan_runs 0 None (fragbits ?vs))"
    using t by blast
  then have r2: "errx (snd (verify_checkfrag ex_session ?vs))
      = [Never_verified_range 1 2, Never_verified 4, Never_verified 7]"
    by (simp add: runs run_msg_def) (simp add: ex_vs_def)
  have r3: "fst (verify_checkfrag ex_session ?full) = OK"
    using u nohole by simp
  show ?thesis
    by (intro conjI) (rule h1 h2 r1 r2 run r3)+
qed

section \<open>Properties of the free-list pass\<close>

lemma first_error_Cons:
  "first_error (r # rs) = (if r \<noteq> OK then r else first_error rs)"
  by (simp add: first_error_def)

lemma first_error_TRET:
  "first_error (WT_TRET r r1 # rs) = first_error (r # r1 # rs)"
  by (simp add: first_error_def WT_TRET_def)

lemma in_bounds_iff:
  "in_bounds s (addr, sz) = (\<not> WT_ADDR_TO_OFF s addr + uint sz > file_size s)"
  by (auto simp: in_bounds_def body_size_def WT_ADDR_TO_OFF_def)

lemma freelist_loop_char:
  "freelist_loop s fes r vs =
     (case charge_entries s (takeWhile (in_bounds s) fes) vs of
        (rs, vs1) \<Rightarrow>
          (case dropWhile (in_bounds s) fes of
             [] \<Rightarrow> (first_error (r # rs), vs1)
           | fe # _ \<Rightarrow> (WT_ERROR, vs1\<lparr>errx := errx vs1 @ [Freelist_bounds (fst fe)]\<rparr>)))"
proof (induction fes arbitrary: r vs)
  case Nil
  then show ?case by (simp add: first_error_def)
next
  case (Cons fe fes)
  obtain addr sz where fe: "fe = (addr, sz)" by (cases fe)
  show ?case
  proof (cases "in_bounds s (addr, sz)")
    case False
    then show ?thesis
      using fe by (simp add: in_bounds_iff)
  next
    case True
    obtain r1 vs1 where a: "verify_addfrag s addr sz vs = (r1, vs1)"
      by (cases "verify_addfrag s addr sz vs")
    obtain rs vs2 where c: "charge_entries s (takeWhile (in_bounds s) fes) vs1 = (rs, vs2)"
      by (cases "charge_entries s (takeWhile (in_bounds s) fes) vs1")
    have "freelist_loop s (fe # fes) r vs = freelist_loop s fes (WT_TRET r r1) vs1"
      using True fe a by (simp add: in_bounds_iff)
    also have "\<dots> = (case dropWhile (in_bounds s) fes of
             [] \<Rightarrow> (first_error (WT_TRET r r1 # rs), vs2)
           | fe # _ \<Rightarrow> (WT_ERROR, vs2\<lparr>errx := errx vs2 @ [Freelist_bounds (fst fe)]\<rparr>))"
      using Cons.IH [of "WT_TRET r r1" vs1] c by simp
    also have "\<dots> = (case dropWhile (in_bounds s) fes of
             [] \<Rightarrow> (first_error (r # r1 # rs), vs2)
           | fe # _ \<Rightarrow> (WT_ERROR, vs2\<lparr>errx := errx vs2 @ [Freelist_bounds (fst fe)]\<rparr>))"
      by (cases "dropWhile (in_bounds s) fes") (simp_all only: list.case first_error_TRET)
    finally show ?thesis
      using True fe a c by simp
  qed
qed

text \<open>
  C7. \<^verbatim>\<open>__verify_freelist\<close> walks the free list in order. As long as the entries are in
  bounds (\<open>addr * allocsize + size \<le> body_size\<close>) each one is charged through addfrag,
  whether or not an earlier one failed. If every entry is in bounds the result is the
  first non-zero addfrag status (0 if there is none) with the state after all the
  charges. Otherwise the first entry out of bounds is rejected: the result is
  \<^verbatim>\<open>WT_ERROR\<close>, with the "references non-existent file pages" diagnostic for that entry
  added to the state reached by charging the entries before it.
\<close>

theorem verify_freelist_charges:
  "verify_freelist s vs =
     (case charge_entries s (takeWhile (in_bounds s) (freeqa s)) vs of
        (rs, vs1) \<Rightarrow>
          (case dropWhile (in_bounds s) (freeqa s) of
             [] \<Rightarrow> (first_error rs, vs1)
           | fe # _ \<Rightarrow> (WT_ERROR, vs1\<lparr>errx := errx vs1 @ [Freelist_bounds (fst fe)]\<rparr>)))"
proof -
  obtain rs vs1 where c: "charge_entries s (takeWhile (in_bounds s) (freeqa s)) vs = (rs, vs1)"
    by (cases "charge_entries s (takeWhile (in_bounds s) (freeqa s)) vs")
  have "first_error (OK # rs) = first_error rs"
    by (simp add: first_error_Cons)
  then show ?thesis
    unfolding verify_freelist_def freelist_loop_char c
    by (cases "dropWhile (in_bounds s) (freeqa s)") (simp_all only: list.case prod.case)
qed

text \<open>An example run: the second entry overlaps the first and is reported, the third is
  still charged, and the status of the pass is that of the second.\<close>

lemma verify_freelist_example:
  "verify_freelist (ex_session\<lparr>freeqa := [(0, 1024), (1, 512), (5, 512)]\<rparr>)
     (ex_vs [False, False, False, False, False, False, False, False])
   = (WT_ERROR, (ex_vs [True, True, False, False, False, True, False, False])
        \<lparr>errx := [Already_verified 1]\<rparr>)"
  by (simp add: verify_freelist_def WT_ADDR_TO_OFF_def WT_BTREE_DESC_SECTOR_def WT_TRET_def
      verify_addfrag_def addfrag_test.simps bit_test_def bit_nset_def Let_def upt_rec
      ex_session_def ex_vs_def)

section \<open>Properties of the tree walk\<close>

subsection \<open>The running record total\<close>

lemma col_var_records_sum:
  "col_var_records d recno = recno + sum_list (map slot_records d)"
  by (induction d arbitrary: recno)
     (simp_all add: slot_records_def add.assoc split: option.split)

lemma record_count_page_records:
  "record_count page vs = vs\<lparr>record_total := record_total vs + page_records page\<rparr>"
  by (cases page) (simp_all add: record_count_def page_records_def col_var_records_sum)

lemma verify_addfrag_record_total:
  "record_total (snd (verify_addfrag s addr sz vs)) = record_total vs"
  by (simp add: verify_addfrag_def Let_def)

lemma verify_overflow_record_total:
  "record_total (snd (verify_overflow s addr sz vs)) = record_total vs"
  by (simp add: verify_overflow_def verify_addfrag_record_total split: ret.split)

lemma overflow_cell_loop_record_total:
  "record_total (snd (overflow_cell_loop s cells vs)) = record_total vs"
proof (induction cells arbitrary: vs)
  case Nil
  then show ?case by simp
next
  case (Cons unpack cells)
  obtain r vs1 where v: "verify_overflow s (off_addr unpack) (off_size unpack) vs = (r, vs1)"
    by (cases "verify_overflow s (off_addr unpack) (off_size unpack) vs")
  have "record_total vs1 = record_total vs"
    using verify_overflow_record_total [of s "off_addr unpack" "off_size unpack" vs] v by simp
  then show ?case
    using Cons.IH v by (cases r) simp_all
qed

lemma verify_overflow_cell_record_total:
  "record_total (snd (verify_overflow_cell s dsk vs)) = record_total vs"
  by (cases dsk) (simp_all add: verify_overflow_cell_def overflow_cell_loop_record_total)

lemma overflow_chk_record_total:
  "record_total (snd (overflow_chk s page vs)) = record_total vs"
  by (cases page) (simp_all add: overflow_chk_def verify_overflow_cell_record_total)

lemma row_leaf_update_record_total:
  "record_total (snd (row_leaf_update paddr d vs)) = record_total vs"
  by (simp add: row_leaf_update_def Let_def split: prod.split ret.split)

lemma verify_row_leaf_key_order_record_total:
  "record_total (snd (verify_row_leaf_key_order s paddr d vs)) = record_total vs"
  by (simp add: verify_row_leaf_key_order_def row_leaf_update_record_total
      split: prod.split ret.split)

lemma row_leaf_chk_record_total:
  "record_total (snd (row_leaf_chk s paddr page vs)) = record_total vs"
  by (cases page) (simp_all add: row_leaf_chk_def verify_row_leaf_key_order_record_total)

lemma recno_chk_record_total:
  "record_total (snd (recno_chk paddr page pr vs)) = record_total vs"
  by (cases page) (simp_all add: recno_chk_def)

lemma verify_row_int_key_order_record_total:
  "record_total (snd (verify_row_int_key_order s paddr k entry vs)) = record_total vs"
  by (simp add: verify_row_int_key_order_def split: ret.split)

lemma verify_page_record_total:
  "fst (verify_page s addr sz page pr vs) = OK \<Longrightarrow>
     record_total (snd (verify_page s addr sz page pr vs)) = record_total vs + page_records page"
proof -
  assume ok: "fst (verify_page s addr sz page pr vs) = OK"
  obtain r1 vs1 where a: "verify_addfrag s addr sz (vs\<lparr>fcnt := fcnt vs + 1\<rparr>) = (r1, vs1)"
    by (cases "verify_addfrag s addr sz (vs\<lparr>fcnt := fcnt vs + 1\<rparr>)")
  obtain r2 vs2 where b: "recno_chk addr page pr vs1 = (r2, vs2)"
    by (cases "recno_chk addr page pr vs1")
  obtain r3 vs3 where c: "row_leaf_chk s addr page (record_count page vs2) = (r3, vs3)"
    by (cases "row_leaf_chk s addr page (record_count page vs2)")
  have t1: "record_total vs1 = record_total vs"
    using verify_addfrag_record_total [of s addr sz "vs\<lparr>fcnt := fcnt vs + 1\<rparr>"] a by simp
  have t2: "record_total vs2 = record_total vs1"
    using recno_chk_record_total [of addr page pr vs1] b by simp
  have t3: "record_total vs3 = record_total vs2 + page_records page"
    using row_leaf_chk_record_total [of s addr page "record_count page vs2"] c
    by (simp add: record_count_page_records)
  have r: "r1 = OK" "r2 = OK" "r3 = OK"
    using ok a b c by (auto simp: verify_page_def split: ret.splits if_splits)
  then have "verify_page s addr sz page pr vs = overflow_chk s page vs3"
    using ok a b c by (auto simp: verify_page_def split: ret.splits if_splits)
  then show ?thesis
    using overflow_chk_record_total [of s page vs3] t1 t2 t3 by simp
qed


lemma page_records_internal [simp]:
  "page_records (WT_PAGE_COL_INT recno t) = 0"
  "page_records (WT_PAGE_ROW_INT rt dsk) = 0"
  "page_records (WT_PAGE_ROW_LEAF d dsk) = 0"
  "page_records WT_PAGE_OVFL = 0"
  by (simp_all add: page_records_def)

lemma WT_TRET_OK: "(WT_TRET r a = OK) = (r = OK \<and> a = OK)"
  by (auto simp: WT_TRET_def)

lemma walk_record_total:
  "fst (verify_tree s ref pr vs) = OK \<Longrightarrow>
     record_total (snd (verify_tree s ref pr vs)) = record_total vs + ref_records ref"
  "fst (col_ref_loop s ct vs) = OK \<Longrightarrow>
     record_total (snd (col_ref_loop s ct vs)) = record_total vs + col_refs_records ct"
  "fst (row_ref_loop s paddr entry rt vs) = OK \<Longrightarrow>
     record_total (snd (row_ref_loop s paddr entry rt vs)) = record_total vs + row_refs_records rt"
proof (induction s ref pr vs and s ct vs and s paddr entry rt vs
    rule: verify_tree_col_ref_loop_row_ref_loop.induct)
  case (1 s addr sz page rin revict parent_recno vs)
  obtain r1 vs1 where p: "verify_page s addr sz page parent_recno vs = (r1, vs1)"
    by (cases "verify_page s addr sz page parent_recno vs")
  have r1: "r1 = OK"
    using "1.prems" p by (cases r1) simp_all
  have t1: "record_total vs1 = record_total vs + page_records page"
    using verify_page_record_total [of s addr sz page parent_recno vs] p r1 by simp
  show ?case
  proof (cases page)
    case (WT_PAGE_COL_INT recno t)
    then have "fst (col_ref_loop s t vs1) = OK"
      using "1.prems" p r1 by simp
    then show ?thesis
      using "1.IH"(1) [OF p [symmetric] r1 WT_PAGE_COL_INT] p r1 t1 WT_PAGE_COL_INT by simp
  next
    case (WT_PAGE_ROW_INT t dsk)
    then have "fst (row_ref_loop s addr 0 t vs1) = OK"
      using "1.prems" p r1 by simp
    then show ?thesis
      using "1.IH"(2) [OF p [symmetric] r1 WT_PAGE_ROW_INT] p r1 t1 WT_PAGE_ROW_INT by simp
  qed (use p r1 t1 in simp_all)
next
  case (2 s vs)
  then show ?case by simp
next
  case (3 s crecno addr sz page rin revict t vs)
  let ?ref = "WT_REF addr sz page rin revict"
  obtain r vs1 where v: "verify_tree s ?ref crecno vs = (r, vs1)"
    by (cases "verify_tree s ?ref crecno vs")
  have c: "crecno = record_total vs + 1" and rin: "rin = OK"
    using "3.prems" by (auto split: if_splits ret.splits)
  have ok: "WT_TRET r revict = OK"
    using "3.prems" c rin v by (auto split: if_splits)
  then have r: "r = OK" by (simp add: WT_TRET_OK)
  have "record_total vs1 = record_total vs + ref_records ?ref"
    using "3.IH"(1) [OF _ rin] c v r by simp
  moreover have "col_ref_loop s ((crecno, ?ref) # t) vs = col_ref_loop s t vs1"
    using c rin v ok by simp
  moreover have "fst (col_ref_loop s t vs1) = OK"
    using "3.prems" calculation(2) by simp
  then have "record_total (snd (col_ref_loop s t vs1)) = record_total vs1 + col_refs_records t"
    using "3.IH"(2) [OF _ rin v [symmetric]] c ok by simp
  ultimately show ?case by (simp add: add.assoc)
next
  case (4 s paddr entry vs)
  then show ?case by simp
next
  case (5 s paddr entry k addr sz page rin revict t vs)
  let ?ref = "WT_REF addr sz page rin revict"
  let ?chk = "if entry \<noteq> 0 then verify_row_int_key_order s paddr k entry vs else (OK, vs)"
  obtain r0 vs0 where k: "?chk = (r0, vs0)"
    by (cases ?chk)
  obtain r vs1 where v: "verify_tree s ?ref 0 vs0 = (r, vs1)"
    by (cases "verify_tree s ?ref 0 vs0")
  have r0: "r0 = OK"
    using "5.prems" k by (cases r0) (simp_all del: verify_tree.simps)
  have rin: "rin = OK"
    using "5.prems" k r0 by (cases rin) (simp_all del: verify_tree.simps)
  have ok: "WT_TRET r revict = OK"
    using "5.prems" k r0 rin v by (simp del: verify_tree.simps split: if_splits)
  then have r: "r = OK" by (simp add: WT_TRET_OK)
  have t0: "record_total vs0 = record_total vs"
    using k verify_row_int_key_order_record_total [of s paddr k entry vs]
    by (auto split: if_splits)
  have "record_total vs1 = record_total vs0 + ref_records ?ref"
    using "5.IH"(1) [OF k [symmetric] r0 rin] v r by simp
  moreover have "row_ref_loop s paddr entry ((k, ?ref) # t) vs = row_ref_loop s paddr (entry + 1) t vs1"
    using k r0 rin v ok by (simp del: verify_tree.simps)
  moreover have "fst (row_ref_loop s paddr (entry + 1) t vs1) = OK"
    using "5.prems" calculation(2) by simp
  then have "record_total (snd (row_ref_loop s paddr (entry + 1) t vs1))
      = record_total vs1 + row_refs_records t"
    using "5.IH"(2) [OF k [symmetric] r0 rin v [symmetric]] ok by simp
  ultimately show ?case using t0 by (simp add: add.assoc)
qed

subsection \<open>Record-number checks\<close>

text \<open>The definitions a concrete run of the walk unfolds.\<close>

lemmas walk_defs = verify_page_def verify_addfrag_def addfrag_test.simps bit_test_def
  bit_nset_def recno_chk_def record_count_def row_leaf_chk_def overflow_chk_def
  verify_overflow_cell_def WT_TRET_def Let_def upt_rec

lemma recno_chk_col:
  "is_col_page page recno \<Longrightarrow>
     recno_chk paddr page parent_recno vs =
       (if parent_recno \<noteq> recno
        then (WT_ERROR, vs\<lparr>errx := errx vs @ [Recno_mismatch paddr recno parent_recno]\<rparr>)
        else (OK, vs))"
  by (cases page) (simp_all add: recno_chk_def is_col_page_def)

lemma verify_page_not_OK:
  "fst (verify_page s addr sz page pr vs) = OK \<Longrightarrow>
     \<exists>vs1. verify_addfrag s addr sz (vs\<lparr>fcnt := fcnt vs + 1\<rparr>) = (OK, vs1)
        \<and> fst (recno_chk addr page pr vs1) = OK"
  by (auto simp: verify_page_def split: prod.splits ret.splits if_splits)

lemma verify_page_recno:
  assumes ok: "fst (verify_page s addr sz page pr vs) = OK" and c: "is_col_page page r"
  shows "r = pr"
proof (rule ccontr)
  assume ne: "r \<noteq> pr"
  obtain vs1 where "fst (recno_chk addr page pr vs1) = OK"
    using verify_page_not_OK [OF ok] by blast
  then show False
    using recno_chk_col [OF c, of addr pr vs1] ne by (simp split: if_splits)
qed

lemma walk_recnos_ok:
  "fst (verify_tree s ref pr vs) = OK \<Longrightarrow> recnos_ok ref pr (record_total vs)"
  "fst (col_ref_loop s ct vs) = OK \<Longrightarrow> col_refs_ok ct (record_total vs)"
  "fst (row_ref_loop s paddr entry rt vs) = OK \<Longrightarrow> row_refs_ok rt (record_total vs)"
proof (induction s ref pr vs and s ct vs and s paddr entry rt vs
    rule: verify_tree_col_ref_loop_row_ref_loop.induct)
  case (1 s addr sz page rin revict parent_recno vs)
  obtain r1 vs1 where p: "verify_page s addr sz page parent_recno vs = (r1, vs1)"
    by (cases "verify_page s addr sz page parent_recno vs")
  have r1: "r1 = OK"
    using "1.prems" p by (cases r1) simp_all
  have pok: "fst (verify_page s addr sz page parent_recno vs) = OK"
    using p r1 by simp
  have t1: "record_total vs1 = record_total vs + page_records page"
    using verify_page_record_total [OF pok] p by simp
  have rec: "r = parent_recno" if "is_col_page page r" for r
    using verify_page_recno [OF pok that] .
  show ?case
  proof (cases page)
    case (WT_PAGE_COL_FIX recno entries)
    then show ?thesis using rec [of recno] by (simp add: is_col_page_def)
  next
    case (WT_PAGE_COL_VAR recno d dsk)
    then show ?thesis using rec [of recno] by (simp add: is_col_page_def)
  next
    case (WT_PAGE_COL_INT recno t)
    then have "fst (col_ref_loop s t vs1) = OK"
      using "1.prems" p r1 by simp
    then have "col_refs_ok t (record_total vs1)"
      using "1.IH"(1) [OF p [symmetric] r1 WT_PAGE_COL_INT] by simp
    then show ?thesis
      using rec [of recno] t1 WT_PAGE_COL_INT by (simp add: is_col_page_def)
  next
    case (WT_PAGE_ROW_INT t dsk)
    then have "fst (row_ref_loop s addr 0 t vs1) = OK"
      using "1.prems" p r1 by simp
    then have "row_refs_ok t (record_total vs1)"
      using "1.IH"(2) [OF p [symmetric] r1 WT_PAGE_ROW_INT] by simp
    then show ?thesis
      using t1 WT_PAGE_ROW_INT by simp
  qed simp_all
next
  case (2 s vs)
  then show ?case by simp
next
  case (3 s crecno addr sz page rin revict t vs)
  let ?ref = "WT_REF addr sz page rin revict"
  obtain r vs1 where v: "verify_tree s ?ref crecno vs = (r, vs1)"
    by (cases "verify_tree s ?ref crecno vs")
  have c: "crecno = record_total vs + 1" and rin: "rin = OK"
    using "3.prems" by (auto split: if_splits ret.splits)
  have ok: "WT_TRET r revict = OK"
    using "3.prems" c rin v by (auto split: if_splits)
  then have r: "r = OK" by (simp add: WT_TRET_OK)
  have vok: "fst (verify_tree s ?ref crecno vs) = OK"
    using v r by simp
  have child: "recnos_ok ?ref crecno (record_total vs)"
    using "3.IH"(1) [OF _ rin vok] c by simp
  have tot: "record_total vs1 = record_total vs + ref_records ?ref"
    using walk_record_total(1) [OF vok] v by simp
  have "col_ref_loop s ((crecno, ?ref) # t) vs = col_ref_loop s t vs1"
    using c rin v ok by simp
  then have "fst (col_ref_loop s t vs1) = OK"
    using "3.prems" by simp
  then have "col_refs_ok t (record_total vs1)"
    using "3.IH"(2) [OF _ rin v [symmetric]] c ok by simp
  then show ?case
    using c child tot by simp
next
  case (4 s paddr entry vs)
  then show ?case by simp
next
  case (5 s paddr entry k addr sz page rin revict t vs)
  let ?ref = "WT_REF addr sz page rin revict"
  let ?chk = "if entry \<noteq> 0 then verify_row_int_key_order s paddr k entry vs else (OK, vs)"
  obtain r0 vs0 where k: "?chk = (r0, vs0)"
    by (cases ?chk)
  obtain r vs1 where v: "verify_tree s ?ref 0 vs0 = (r, vs1)"
    by (cases "verify_tree s ?ref 0 vs0")
  have r0: "r0 = OK"
    using "5.prems" k by (cases r0) (simp_all del: verify_tree.simps)
  have rin: "rin = OK"
    using "5.prems" k r0 by (cases rin) (simp_all del: verify_tree.simps)
  have ok: "WT_TRET r revict = OK"
    using "5.prems" k r0 rin v by (simp del: verify_tree.simps split: if_splits)
  then have r: "r = OK" by (simp add: WT_TRET_OK)
  have vok: "fst (verify_tree s ?ref 0 vs0) = OK"
    using v r by simp
  have t0: "record_total vs0 = record_total vs"
    using k verify_row_int_key_order_record_total [of s paddr k entry vs]
    by (auto split: if_splits)
  have child: "recnos_ok ?ref 0 (record_total vs0)"
    using "5.IH"(1) [OF k [symmetric] r0 rin vok] .
  have tot: "record_total vs1 = record_total vs0 + ref_records ?ref"
    using walk_record_total(1) [OF vok] v by simp
  have "row_ref_loop s paddr entry ((k, ?ref) # t) vs = row_ref_loop s paddr (entry + 1) t vs1"
    using k r0 rin v ok by (simp del: verify_tree.simps)
  then have "fst (row_ref_loop s paddr (entry + 1) t vs1) = OK"
    using "5.prems" by simp
  then have "row_refs_ok t (record_total vs1)"
    using "5.IH"(2) [OF k [symmetric] r0 rin v [symmetric]] ok by simp
  then show ?case
    using child tot t0 by simp
qed

text \<open>
  C2. The record-number checks of the walk. A column-store page (fixed-length leaf,
  variable-length leaf or internal) whose starting record differs from the expected one
  handed down by the parent makes \<^verbatim>\<open>__verify_tree\<close> fail; once the page's fragments
  are charged (and the optional dump has succeeded) the failure is \<^verbatim>\<open>WT_ERROR\<close> with
  the diagnostic that cites the page address, the actual and the expected starting
  record. In the loop over the children of a column-store internal page, a child whose
  record number is not the running \<open>record_total + 1\<close> ends the loop with \<^verbatim>\<open>WT_ERROR\<close>
  and the diagnostic citing the child's address, its record number and the expected
  one. A child that passes that test and is paged in is verified by \<^verbatim>\<open>__verify_tree\<close>
  with the reference's record number as the expected one; the status of that
  verification, merged with the status of the eviction, ends the loop when it is
  non-zero, so a failure below a child is the result of the loop; otherwise the next
  child is considered in the state that verification leaves, so against the running
  total at that moment. A failed page-in ends the loop with its status. The loop is
  what \<^verbatim>\<open>__verify_tree\<close> does for a column-store internal page after the checks on
  the page itself. Consequently a walk that returns 0 has found every column-store page
  at its expected record number and every child reference of a column-store internal
  page at the running total plus one (\<open>recnos_ok\<close>).
\<close>

theorem verify_tree_recno_checks:
  "(is_col_page page recno \<and> recno \<noteq> parent_recno \<longrightarrow>
      fst (verify_tree s (WT_REF addr sz page rin revict) parent_recno vs) \<noteq> OK
      \<and> (\<forall>vs1. verify_addfrag s addr sz (vs\<lparr>fcnt := fcnt vs + 1\<rparr>) = (OK, vs1)
              \<and> (dumpfile vs1 \<longrightarrow> debug_page s addr = OK) \<longrightarrow>
            verify_tree s (WT_REF addr sz page rin revict) parent_recno vs
              = (WT_ERROR,
                 vs1\<lparr>errx := errx vs1 @ [Recno_mismatch addr recno parent_recno]\<rparr>)))
   \<and> (crecno \<noteq> record_total vs + 1 \<longrightarrow>
      col_ref_loop s ((crecno, WT_REF caddr csz cpage cin cevict) # t) vs
        = (WT_ERROR,
           vs\<lparr>errx := errx vs @ [Recno_mismatch caddr crecno (record_total vs + 1)]\<rparr>))
   \<and> (crecno = record_total vs + 1 \<and> cin = OK \<and> cevict = OK
        \<and> verify_tree s (WT_REF caddr csz cpage cin cevict) crecno vs = (OK, vs') \<longrightarrow>
      col_ref_loop s ((crecno, WT_REF caddr csz cpage cin cevict) # t) vs
        = col_ref_loop s t vs')
   \<and> (verify_page s addr sz (WT_PAGE_COL_INT recno ct) parent_recno vs = (OK, vs'') \<longrightarrow>
      verify_tree s (WT_REF addr sz (WT_PAGE_COL_INT recno ct) rin revict) parent_recno vs
        = col_ref_loop s ct vs'')
   \<and> (crecno = record_total vs + 1 \<and> cin = OK \<longrightarrow>
      col_ref_loop s ((crecno, WT_REF caddr csz cpage cin cevict) # t) vs
        = (case verify_tree s (WT_REF caddr csz cpage cin cevict) crecno vs of
             (r, vsc) \<Rightarrow>
               if WT_TRET r cevict \<noteq> OK then (WT_TRET r cevict, vsc)
               else col_ref_loop s t vsc))
   \<and> (crecno = record_total vs + 1 \<and> cin = OK
        \<and> fst (verify_tree s (WT_REF caddr csz cpage cin cevict) crecno vs) \<noteq> OK \<longrightarrow>
      col_ref_loop s ((crecno, WT_REF caddr csz cpage cin cevict) # t) vs
        = verify_tree s (WT_REF caddr csz cpage cin cevict) crecno vs)
   \<and> (crecno = record_total vs + 1 \<and> cin = OK
        \<and> is_col_page cpage crec \<and> crec \<noteq> crecno \<longrightarrow>
      fst (col_ref_loop s ((crecno, WT_REF caddr csz cpage cin cevict) # t) vs) \<noteq> OK)
   \<and> (crecno = record_total vs + 1 \<and> cin \<noteq> OK \<longrightarrow>
      col_ref_loop s ((crecno, WT_REF caddr csz cpage cin cevict) # t) vs = (cin, vs))
   \<and> (fst (verify_tree s ref parent_recno vs) = OK \<longrightarrow>
      recnos_ok ref parent_recno (record_total vs))"
proof -
  let ?child = "WT_REF caddr csz cpage cin cevict"
  have a: "fst (verify_tree s (WT_REF addr sz page rin revict) parent_recno vs) \<noteq> OK"
    if c: "is_col_page page recno" and ne: "recno \<noteq> parent_recno"
    for s addr sz page rin revict parent_recno vs recno
  proof
    assume ok: "fst (verify_tree s (WT_REF addr sz page rin revict) parent_recno vs) = OK"
    then have "fst (verify_page s addr sz page parent_recno vs) = OK"
      by (auto split: prod.splits ret.splits)
    then show False
      using verify_page_recno [OF _ c] ne by blast
  qed
  have b: "verify_tree s (WT_REF addr sz page rin revict) parent_recno vs
      = (WT_ERROR, vs1\<lparr>errx := errx vs1 @ [Recno_mismatch addr recno parent_recno]\<rparr>)"
    if c: "is_col_page page recno" and ne: "recno \<noteq> parent_recno"
      and af: "verify_addfrag s addr sz (vs\<lparr>fcnt := fcnt vs + 1\<rparr>) = (OK, vs1)"
      and dp: "dumpfile vs1 \<longrightarrow> debug_page s addr = OK" for vs1
  proof -
    have "verify_page s addr sz page parent_recno vs
        = (WT_ERROR, vs1\<lparr>errx := errx vs1 @ [Recno_mismatch addr recno parent_recno]\<rparr>)"
      using af dp ne recno_chk_col [OF c, of addr parent_recno vs1]
      by (auto simp: verify_page_def)
    then show ?thesis by simp
  qed
  have c: "col_ref_loop s ((crecno, ?child) # t) vs
      = (WT_ERROR, vs\<lparr>errx := errx vs @ [Recno_mismatch caddr crecno (record_total vs + 1)]\<rparr>)"
    if "crecno \<noteq> record_total vs + 1"
    using that by (simp del: verify_tree.simps)
  have d: "col_ref_loop s ((crecno, ?child) # t) vs = col_ref_loop s t vs'"
    if "crecno = record_total vs + 1" "cin = OK" "cevict = OK"
      "verify_tree s ?child crecno vs = (OK, vs')"
    using that by (simp del: verify_tree.simps add: WT_TRET_def)
  have e: "verify_tree s (WT_REF addr sz (WT_PAGE_COL_INT recno ct) rin revict) parent_recno vs
        = col_ref_loop s ct vs''"
    if "verify_page s addr sz (WT_PAGE_COL_INT recno ct) parent_recno vs = (OK, vs'')"
    using that by simp
  have f: "col_ref_loop s ((crecno, ?child) # t) vs
        = (case verify_tree s ?child crecno vs of
             (r, vsc) \<Rightarrow>
               if WT_TRET r cevict \<noteq> OK then (WT_TRET r cevict, vsc)
               else col_ref_loop s t vsc)"
    if "crecno = record_total vs + 1" "cin = OK"
    using that by (simp del: verify_tree.simps)
  have g: "col_ref_loop s ((crecno, ?child) # t) vs = verify_tree s ?child crecno vs"
    if h: "crecno = record_total vs + 1" "cin = OK"
      and bad: "fst (verify_tree s ?child crecno vs) \<noteq> OK"
  proof -
    obtain r vsc where v: "verify_tree s ?child crecno vs = (r, vsc)"
      by (cases "verify_tree s ?child crecno vs")
    then have "r \<noteq> OK" using bad by simp
    then have "WT_TRET r cevict = r" by (simp add: WT_TRET_def)
    then show ?thesis
      using f [OF h] v \<open>r \<noteq> OK\<close> by (simp del: verify_tree.simps)
  qed
  have h: "fst (col_ref_loop s ((crecno, ?child) # t) vs) \<noteq> OK"
    if "crecno = record_total vs + 1" "cin = OK" "is_col_page cpage crec" "crec \<noteq> crecno"
  proof -
    have "fst (verify_tree s ?child crecno vs) \<noteq> OK"
      using a [OF that(3,4)] .
    then show ?thesis
      using g [OF that(1,2)] by (simp del: verify_tree.simps)
  qed
  have i: "col_ref_loop s ((crecno, ?child) # t) vs = (cin, vs)"
    if "crecno = record_total vs + 1" "cin \<noteq> OK"
    using that by (cases cin) (simp_all del: verify_tree.simps)
  have j: "recnos_ok ref parent_recno (record_total vs)"
    if "fst (verify_tree s ref parent_recno vs) = OK"
    using walk_recnos_ok(1) [OF that] .
  note a' = a [of page recno parent_recno s addr sz rin revict vs]
  show ?thesis
    by (intro conjI impI allI; (elim conjE)?)
       (rule a' b c d e f g h i j; assumption)+
qed

theorem verify_tree_recno_checks_witness:
  "is_col_page (WT_PAGE_COL_FIX 1 3) 1 \<and> (1::u64) \<noteq> 2
   \<and> verify_tree ex_session ex_fix 2 (ex_vs [True, False, False, False, False, False, False, False])
       = (WT_ERROR, (ex_vs [True, True, True, False, False, False, False, False])
            \<lparr>fcnt := 1, errx := [Recno_mismatch 1 1 2]\<rparr>)
   \<and> (5::u64) \<noteq> record_total
         ((ex_vs [True, True, True, False, False, False, False, False])\<lparr>record_total := 3\<rparr>) + 1
   \<and> col_ref_loop ex_session [(5, ex_var)]
         ((ex_vs [True, True, True, False, False, False, False, False])\<lparr>record_total := 3\<rparr>)
       = (WT_ERROR, (ex_vs [True, True, True, False, False, False, False, False])
            \<lparr>record_total := 3, errx := [Recno_mismatch 3 5 4]\<rparr>)
   \<and> verify_tree ex_session ex_bad_root 1
         (ex_vs [False, False, False, False, False, False, False, False])
       = (WT_ERROR, (ex_vs [True, True, True, False, False, False, False, False])
            \<lparr>fcnt := 2, errx := [Recno_mismatch 1 7 1]\<rparr>)
   \<and> fst (verify_tree ex_session ex_col_root 1
         (ex_vs [False, False, False, False, False, False, False, False])) = OK
   \<and> recnos_ok ex_col_root 1 0"
proof -
  let ?vs = "ex_vs [True, False, False, False, False, False, False, False]"
  let ?vs1 = "(ex_vs [True, True, True, False, False, False, False, False])\<lparr>fcnt := 1\<rparr>"
  let ?vs3 = "(ex_vs [True, True, True, False, False, False, False, False])\<lparr>record_total := 3\<rparr>"
  let ?vsZ = "ex_vs [False, False, False, False, False, False, False, False]"
  let ?vsR = "(ex_vs [True, False, False, False, False, False, False, False])\<lparr>fcnt := 1\<rparr>"
  let ?vsC = "(ex_vs [True, True, True, False, False, False, False, False])\<lparr>fcnt := 2\<rparr>"
  let ?leaf = "WT_REF 1 1024 (WT_PAGE_COL_FIX 7 3) OK OK"
  have p: "is_col_page (WT_PAGE_COL_FIX 1 3) 1 \<and> (1::u64) \<noteq> 2"
    by (simp add: is_col_page_def)
  have af: "verify_addfrag ex_session 1 1024 (?vs\<lparr>fcnt := fcnt ?vs + 1\<rparr>) = (OK, ?vs1)"
    by (simp add: verify_addfrag_def addfrag_test.simps bit_test_def bit_nset_def
        ex_session_def ex_vs_def upt_rec)
  have dp: "dumpfile ?vs1 \<longrightarrow> debug_page ex_session 1 = OK"
    by (simp add: ex_vs_def)
  have r1: "verify_tree ex_session (WT_REF 1 1024 (WT_PAGE_COL_FIX 1 3) OK OK) 2 ?vs
      = (WT_ERROR, ?vs1\<lparr>errx := errx ?vs1 @ [Recno_mismatch 1 1 2]\<rparr>)"
    using verify_tree_recno_checks [where page = "WT_PAGE_COL_FIX 1 3" and recno = 1
        and parent_recno = 2 and s = ex_session and addr = 1 and sz = 1024 and vs = ?vs
        and rin = OK and revict = OK, THEN conjunct1] p af dp
    by blast
  have q: "(5::u64) \<noteq> record_total ?vs3 + 1"
    by (simp add: ex_vs_def)
  have r2: "col_ref_loop ex_session [(5, ex_var)] ?vs3
      = (WT_ERROR, ?vs3\<lparr>errx := errx ?vs3 @ [Recno_mismatch 3 5 (record_total ?vs3 + 1)]\<rparr>)"
    unfolding ex_var_def
    using verify_tree_recno_checks [where crecno = 5 and vs = ?vs3 and s = ex_session
        and caddr = 3 and t = "[]", THEN conjunct2, THEN conjunct1] q
    by blast
  have bp: "is_col_page (WT_PAGE_COL_FIX 7 3) 7 \<and> (7::u64) \<noteq> 1"
    by (simp add: is_col_page_def)
  have baf: "verify_addfrag ex_session 1 1024 (?vsR\<lparr>fcnt := fcnt ?vsR + 1\<rparr>) = (OK, ?vsC)"
    by (simp add: verify_addfrag_def addfrag_test.simps bit_test_def bit_nset_def
        ex_session_def ex_vs_def upt_rec)
  have bdp: "dumpfile ?vsC \<longrightarrow> debug_page ex_session 1 = OK"
    by (simp add: ex_vs_def)
  have leaf: "verify_tree ex_session ?leaf 1 ?vsR
      = (WT_ERROR, ?vsC\<lparr>errx := errx ?vsC @ [Recno_mismatch 1 7 1]\<rparr>)"
    using verify_tree_recno_checks [where page = "WT_PAGE_COL_FIX 7 3" and recno = 7
        and parent_recno = 1 and s = ex_session and addr = 1 and sz = 1024 and vs = ?vsR
        and rin = OK and revict = OK, THEN conjunct1] bp baf bdp
    by blast
  then have lbad: "fst (verify_tree ex_session ?leaf 1 ?vsR) \<noteq> OK"
    by simp
  have cr: "(1::u64) = record_total ?vsR + 1 \<and> (OK::ret) = OK"
    by (simp add: ex_vs_def)
  have loop: "col_ref_loop ex_session [(1, ?leaf)] ?vsR = verify_tree ex_session ?leaf 1 ?vsR"
    using verify_tree_recno_checks [where crecno = 1 and vs = ?vsR and s = ex_session
        and caddr = 1 and csz = 1024 and cpage = "WT_PAGE_COL_FIX 7 3" and cin = OK
        and cevict = OK and t = "[]", THEN conjunct2, THEN conjunct2, THEN conjunct2,
        THEN conjunct2, THEN conjunct2, THEN conjunct1] cr lbad
    by blast
  have vp: "verify_page ex_session 0 512 (WT_PAGE_COL_INT 1 [(1, ?leaf)]) 1 ?vsZ = (OK, ?vsR)"
    by (simp add: walk_defs ex_session_def ex_vs_def)
  have "verify_tree ex_session (WT_REF 0 512 (WT_PAGE_COL_INT 1 [(1, ?leaf)]) OK OK) 1 ?vsZ
      = col_ref_loop ex_session [(1, ?leaf)] ?vsR"
    using verify_tree_recno_checks [where s = ex_session and addr = 0 and sz = 512
        and recno = 1 and ct = "[(1, ?leaf)]" and parent_recno = 1 and vs = ?vsZ
        and rin = OK and revict = OK and vs'' = ?vsR, THEN conjunct2, THEN conjunct2,
        THEN conjunct2, THEN conjunct1] vp
    by blast
  then have r3: "verify_tree ex_session ex_bad_root 1 ?vsZ
      = (WT_ERROR, (ex_vs [True, True, True, False, False, False, False, False])
            \<lparr>fcnt := 2, errx := [Recno_mismatch 1 7 1]\<rparr>)"
    using loop leaf by (simp add: ex_bad_root_def ex_bad_leaf_def ex_vs_def)
  have good: "fst (verify_tree ex_session ex_col_root 1 ?vsZ) = OK"
    by (simp add: walk_defs ex_session_def ex_vs_def ex_col_root_def ex_fix_def ex_var_def)
  have "recnos_ok ex_col_root 1 (record_total ?vsZ)"
    using verify_tree_recno_checks [where s = ex_session and ref = ex_col_root
        and parent_recno = 1 and vs = ?vsZ, THEN conjunct2, THEN conjunct2, THEN conjunct2,
        THEN conjunct2, THEN conjunct2, THEN conjunct2, THEN conjunct2, THEN conjunct2] good
    by blast
  then have r4: "recnos_ok ex_col_root 1 0"
    by (simp add: ex_vs_def)
  have r1': "verify_tree ex_session ex_fix 2 ?vs
      = (WT_ERROR, (ex_vs [True, True, True, False, False, False, False, False])
            \<lparr>fcnt := 1, errx := [Recno_mismatch 1 1 2]\<rparr>)"
    using r1 by (simp add: ex_fix_def ex_vs_def)
  have r2': "col_ref_loop ex_session [(5, ex_var)] ?vs3
      = (WT_ERROR, (ex_vs [True, True, True, False, False, False, False, False])
            \<lparr>record_total := 3, errx := [Recno_mismatch 3 5 4]\<rparr>)"
    using r2 by (simp add: ex_vs_def)
  show ?thesis
    using p q by (intro conjI) (simp, simp, rule r1', simp, rule r2', rule r3, rule good, rule r4)
qed

subsection \<open>Key order\<close>

lemma of_nat_u32_eq_0:
  assumes "i < 2 ^ 32"
  shows "((of_nat i :: u32) \<noteq> 0) = (1 \<le> i)"
proof -
  have "unat (of_nat i :: u32) = i"
    using assms by (simp add: unat_of_nat)
  then show ?thesis
    by (metis One_nat_def Suc_le_eq not_gr_zero unat_eq_0 unsigned_0)
qed

lemma row_ref_loop_children:
  "i + length t \<le> 2 ^ 32 \<Longrightarrow>
     row_ref_loop s paddr (of_nat i) t vs = row_children s paddr i t vs"
proof (induction t arbitrary: i vs)
  case Nil
  then show ?case by simp
next
  case (Cons x t)
  obtain k addr sz page rin revict where x: "x = (k, WT_REF addr sz page rin revict)"
    by (cases x; cases "snd x") auto
  have i: "i < 2 ^ 32" and next_ok: "Suc i + length t \<le> 2 ^ 32"
    using Cons.prems by simp_all
  have "(of_nat i :: u32) + 1 = of_nat (Suc i)"
    by simp
  then have step: "row_ref_loop s paddr (of_nat i + 1) t vs' = row_children s paddr (Suc i) t vs'"
    for vs'
    using Cons.IH [OF next_ok, of vs'] by (simp add: add.commute)
  show ?case
    unfolding x
    by (simp del: verify_tree.simps add: of_nat_u32_eq_0 [OF i] step
        split: prod.split ret.split)
qed

text \<open>
  C3. The key-order check on a row-store internal page.
  \<^verbatim>\<open>__verify_row_int_key_order\<close> fails, with the "sorts before the last key appearing
  on page" diagnostic, whenever the comparison of the fence key with \<open>max_key\<close> is not
  strictly positive; when it returns 0 the comparison was strictly positive, \<open>max_key\<close> is
  the fence key and \<open>max_addr\<close> the address of the internal page. For a page whose
  array holds fewer than \<open>2^32\<close> references (\<^verbatim>\<open>entries\<close> is 32-bit), what
  \<^verbatim>\<open>__verify_tree\<close> does after the checks on the page itself is \<open>row_children\<close> from
  index 0: the check is made for every entry with index at least 1 and for no other.
  For the entry with index 0 the key is never looked at: any other key in its place
  gives the same result.
\<close>

theorem row_int_key_order_checks:
  assumes "length t < 2 ^ 32"
  shows "(btree_compare s k (max_key vs) \<le> 0 \<longrightarrow>
      verify_row_int_key_order s paddr k entry vs
        = (WT_ERROR, vs\<lparr>errx := errx vs @ [Int_key_order entry paddr (max_addr vs)]\<rparr>))
   \<and> (fst (verify_row_int_key_order s paddr k entry vs) = OK \<longrightarrow>
      btree_compare s k (max_key vs) > 0
      \<and> snd (verify_row_int_key_order s paddr k entry vs)
          = vs\<lparr>max_key := k, max_addr := paddr\<rparr>)
   \<and> (verify_page s addr sz (WT_PAGE_ROW_INT t dsk) parent_recno vs = (OK, vsp) \<longrightarrow>
      verify_tree s (WT_REF addr sz (WT_PAGE_ROW_INT t dsk) rin revict) parent_recno vs
        = row_children s addr 0 t vsp)
   \<and> row_children s addr 0 ((k, child) # t') vs = row_children s addr 0 ((k', child) # t') vs"
proof -
  have a: "btree_compare s k (max_key vs) \<le> 0 \<Longrightarrow>
      verify_row_int_key_order s paddr k entry vs
        = (WT_ERROR, vs\<lparr>errx := errx vs @ [Int_key_order entry paddr (max_addr vs)]\<rparr>)"
    by (simp add: verify_row_int_key_order_def)
  have b: "fst (verify_row_int_key_order s paddr k entry vs) = OK \<Longrightarrow>
      btree_compare s k (max_key vs) > 0
      \<and> snd (verify_row_int_key_order s paddr k entry vs) = vs\<lparr>max_key := k, max_addr := paddr\<rparr>"
    by (cases "buf_set s k") (auto simp: verify_row_int_key_order_def split: if_splits)
  have "row_ref_loop s addr (of_nat 0) t vsp = row_children s addr 0 t vsp"
    using assms by (intro row_ref_loop_children) simp
  then have c: "verify_tree s (WT_REF addr sz (WT_PAGE_ROW_INT t dsk) rin revict) parent_recno vs
        = row_children s addr 0 t vsp"
    if "verify_page s addr sz (WT_PAGE_ROW_INT t dsk) parent_recno vs = (OK, vsp)"
    using that by simp
  have d: "row_children s addr 0 ((k, child) # t') vs = row_children s addr 0 ((k', child) # t') vs"
    by (cases child) (simp del: verify_tree.simps)
  show ?thesis
    using a b c d by blast
qed

theorem row_int_key_order_checks_witness:
  "length [([], ex_row_leaf1), (''mango'', ex_row_leaf2)] < 2 ^ 32
   \<and> btree_compare ex_session ''banana''
         (max_key ((ex_vs [True, True, False, False, False, False, False, False])
                     \<lparr>max_key := ''mango'', max_addr := 1\<rparr>)) \<le> 0
   \<and> verify_row_int_key_order ex_session 0 ''banana'' 1
         ((ex_vs [True, True, False, False, False, False, False, False])
            \<lparr>max_key := ''mango'', max_addr := 1\<rparr>)
       = (WT_ERROR, (ex_vs [True, True, False, False, False, False, False, False])
            \<lparr>max_key := ''mango'', max_addr := 1, errx := [Int_key_order 1 0 1]\<rparr>)
   \<and> verify_tree ex_session ex_row_root 0
         (ex_vs [False, False, False, False, False, False, False, False])
       = (OK, (ex_vs [True, True, True, False, False, False, False, False])
            \<lparr>fcnt := 3, max_key := ''pear'', max_addr := 2\<rparr>)"
proof -
  let ?t = "[([], ex_row_leaf1), (''mango'', ex_row_leaf2)]"
  let ?vsM = "(ex_vs [True, True, False, False, False, False, False, False])
      \<lparr>max_key := ''mango'', max_addr := 1\<rparr>"
  let ?vs0 = "ex_vs [False, False, False, False, False, False, False, False]"
  let ?vs1 = "(ex_vs [True, False, False, False, False, False, False, False])\<lparr>fcnt := 1\<rparr>"
  let ?vsF = "(ex_vs [True, True, True, False, False, False, False, False])
      \<lparr>fcnt := 3, max_key := ''pear'', max_addr := 2\<rparr>"
  have h: "length ?t < 2 ^ 32"
    by simp
  have c: "btree_compare ex_session ''banana'' (max_key ?vsM) \<le> 0"
    by (simp add: ex_session_def ex_vs_def)
  have r1: "verify_row_int_key_order ex_session 0 ''banana'' 1 ?vsM
      = (WT_ERROR, ?vsM\<lparr>errx := errx ?vsM @ [Int_key_order 1 0 (max_addr ?vsM)]\<rparr>)"
    using row_int_key_order_checks [OF h, where s = ex_session and k = "''banana''"
        and vs = ?vsM and paddr = 0 and entry = 1] c
    by blast
  have vp: "verify_page ex_session 0 512 (WT_PAGE_ROW_INT ?t None) 0 ?vs0 = (OK, ?vs1)"
    by (simp add: walk_defs ex_session_def ex_vs_def)
  have rc: "row_children ex_session 0 0 ?t ?vs1 = (OK, ?vsF)"
    by (simp add: walk_defs ex_session_def ex_vs_def ex_row_leaf1_def ex_row_leaf2_def
      verify_row_leaf_key_order_def row_leaf_update_def verify_row_int_key_order_def
      WT_ADDR_INVALID_def)
  have "verify_tree ex_session (WT_REF 0 512 (WT_PAGE_ROW_INT ?t None) OK OK) 0 ?vs0
      = row_children ex_session 0 0 ?t ?vs1"
    using row_int_key_order_checks [OF h, where s = ex_session and addr = 0 and sz = 512
        and dsk = None and parent_recno = 0 and vs = ?vs0 and vsp = ?vs1
        and rin = OK and revict = OK] vp
    by blast
  then have r2: "verify_tree ex_session ex_row_root 0 ?vs0 = (OK, ?vsF)"
    using rc by (simp add: ex_row_root_def)
  have r1': "verify_row_int_key_order ex_session 0 ''banana'' 1 ?vsM
      = (WT_ERROR, (ex_vs [True, True, False, False, False, False, False, False])
            \<lparr>max_key := ''mango'', max_addr := 1, errx := [Int_key_order 1 0 1]\<rparr>)"
    using r1 by (simp add: ex_vs_def)
  show ?thesis
    by (intro conjI) (rule h c r1' r2)+
qed

text \<open>
  C4. \<^verbatim>\<open>__verify_row_leaf_key_order\<close> on a row-store leaf with at least one entry.
  When \<open>max_addr\<close> is \<^verbatim>\<open>WT_ADDR_INVALID\<close> on entry (and the scratch buffer and the
  first key are obtained), a first key that compares below \<open>max_key\<close> makes the call fail
  with the "sorts equal or less than" diagnostic and leaves \<open>max_key\<close> and \<open>max_addr\<close>
  as they were; a first key that compares equal or above passes, and the state is
  updated. When \<open>max_addr\<close> is not \<^verbatim>\<open>WT_ADDR_INVALID\<close> on entry there is no
  comparison: the result is the update alone, and it is the same under any other
  comparator. Whenever the call returns 0, \<open>max_key\<close> is the last key of the page and
  \<open>max_addr\<close> is the page's address.
\<close>

theorem verify_row_leaf_key_order_cases:
  assumes "d \<noteq> []"
  shows "(max_addr vs = WT_ADDR_INVALID \<and> scr_alloc s 0 = OK \<and> fst (hd d) = OK
            \<and> btree_compare s (snd (hd d)) (max_key vs) < 0 \<longrightarrow>
          verify_row_leaf_key_order s paddr d vs
            = (WT_ERROR, vs\<lparr>errx := errx vs @ [Leaf_key_order paddr (max_addr vs)]\<rparr>)
          \<and> max_key (snd (verify_row_leaf_key_order s paddr d vs)) = max_key vs
          \<and> max_addr (snd (verify_row_leaf_key_order s paddr d vs)) = max_addr vs)
       \<and> (max_addr vs = WT_ADDR_INVALID \<and> scr_alloc s 0 = OK \<and> fst (hd d) = OK
            \<and> btree_compare s (snd (hd d)) (max_key vs) \<ge> 0 \<and> fst (last d) = OK \<longrightarrow>
          verify_row_leaf_key_order s paddr d vs
            = (OK, vs\<lparr>max_addr := paddr, max_key := snd (last d)\<rparr>))
       \<and> (max_addr vs \<noteq> WT_ADDR_INVALID \<longrightarrow>
          verify_row_leaf_key_order s paddr d vs
            = (if fst (last d) = OK then (OK, vs\<lparr>max_addr := paddr, max_key := snd (last d)\<rparr>)
               else (fst (last d), vs\<lparr>max_addr := paddr\<rparr>))
          \<and> verify_row_leaf_key_order (s\<lparr>btree_compare := cmp'\<rparr>) paddr d vs
            = verify_row_leaf_key_order s paddr d vs)
       \<and> (fst (verify_row_leaf_key_order s paddr d vs) = OK \<longrightarrow>
          max_key (snd (verify_row_leaf_key_order s paddr d vs)) = snd (last d)
          \<and> max_addr (snd (verify_row_leaf_key_order s paddr d vs)) = paddr)"
proof -
  obtain r1 k1 where h: "hd d = (r1, k1)" by (cases "hd d")
  obtain rn kn where l: "last d = (rn, kn)" by (cases "last d")
  have upd: "row_leaf_update paddr d vs
      = (if rn = OK then (OK, vs\<lparr>max_addr := paddr, max_key := kn\<rparr>)
         else (rn, vs\<lparr>max_addr := paddr\<rparr>))"
    by (cases rn) (simp_all add: row_leaf_update_def l)
  show ?thesis
    by (cases "scr_alloc s 0"; cases r1)
       (auto simp: verify_row_leaf_key_order_def h l upd)
qed

theorem verify_row_leaf_key_order_cases_witness:
  "[(OK, ''mango''), (OK, ''pear'')] \<noteq> []
   \<and> max_addr ((ex_vs []) \<lparr>max_key := ''zebra''\<rparr>) = WT_ADDR_INVALID
   \<and> scr_alloc ex_session 0 = OK
   \<and> btree_compare ex_session ''mango'' ''zebra'' < 0
   \<and> verify_row_leaf_key_order ex_session 2 [(OK, ''mango''), (OK, ''pear'')]
         ((ex_vs []) \<lparr>max_key := ''zebra''\<rparr>)
       = (WT_ERROR, (ex_vs []) \<lparr>max_key := ''zebra'', errx := [Leaf_key_order 2 WT_ADDR_INVALID]\<rparr>)
   \<and> max_addr ((ex_vs []) \<lparr>max_key := ''zebra'', max_addr := 1\<rparr>) \<noteq> WT_ADDR_INVALID
   \<and> verify_row_leaf_key_order ex_session 2 [(OK, ''mango''), (OK, ''pear'')]
         ((ex_vs []) \<lparr>max_key := ''zebra'', max_addr := 1\<rparr>)
       = (OK, (ex_vs []) \<lparr>max_key := ''pear'', max_addr := 2\<rparr>)"
proof -
  let ?d = "[(OK, ''mango''), (OK, ''pear'')] :: WT_ROW list"
  let ?vsA = "(ex_vs []) \<lparr>max_key := ''zebra''\<rparr>"
  let ?vsB = "(ex_vs []) \<lparr>max_key := ''zebra'', max_addr := 1\<rparr>"
  have h: "?d \<noteq> []" by simp
  have a1: "max_addr ?vsA = WT_ADDR_INVALID" by (simp add: ex_vs_def)
  have a2: "scr_alloc ex_session 0 = OK" by (simp add: ex_session_def)
  have a3: "btree_compare ex_session ''mango'' ''zebra'' < 0" by (simp add: ex_session_def)
  have a4: "fst (hd ?d) = OK \<and> snd (hd ?d) = ''mango'' \<and> max_key ?vsA = ''zebra''"
    by (simp add: ex_vs_def)
  have r1: "verify_row_leaf_key_order ex_session 2 ?d ?vsA
      = (WT_ERROR, ?vsA\<lparr>errx := errx ?vsA @ [Leaf_key_order 2 (max_addr ?vsA)]\<rparr>)"
    using verify_row_leaf_key_order_cases [OF h, where vs = ?vsA and s = ex_session
        and paddr = 2] a1 a2 a3 a4
    by simp
  have b1: "max_addr ?vsB \<noteq> WT_ADDR_INVALID"
    by (simp add: ex_vs_def WT_ADDR_INVALID_def)
  have r2: "verify_row_leaf_key_order ex_session 2 ?d ?vsB
      = (if fst (last ?d) = OK then (OK, ?vsB\<lparr>max_addr := 2, max_key := snd (last ?d)\<rparr>)
         else (fst (last ?d), ?vsB\<lparr>max_addr := 2\<rparr>))"
    using verify_row_leaf_key_order_cases [OF h, where vs = ?vsB and s = ex_session
        and paddr = 2] b1
    by blast
  have r1': "verify_row_leaf_key_order ex_session 2 ?d ?vsA
      = (WT_ERROR, (ex_vs []) \<lparr>max_key := ''zebra'', errx := [Leaf_key_order 2 WT_ADDR_INVALID]\<rparr>)"
    using r1 by (simp add: ex_vs_def)
  have r2': "verify_row_leaf_key_order ex_session 2 ?d ?vsB
      = (OK, (ex_vs []) \<lparr>max_key := ''pear'', max_addr := 2\<rparr>)"
    using r2 by (simp add: ex_vs_def)
  show ?thesis
    by (intro conjI) (rule h a1 a2 a3 r1' b1 r2')+
qed

subsection \<open>The record count of a page and of a walk\<close>

text \<open>
  C6. The record count. At its second \<^verbatim>\<open>switch\<close> \<^verbatim>\<open>__verify_tree\<close> adds
  \<open>page_records page\<close> to the running total: \<open>entries\<close> for a fixed-length
  column-store leaf; for a variable-length leaf the sum over its slots of 1 for a null
  slot and of the unpacked cell's \<open>rle\<close> otherwise; nothing for a page of any other
  kind. Over a whole walk that returns 0 the running total grows by the sum of these
  counts over the pages of the subtree. The total is 64-bit and wraps.
\<close>

theorem verify_tree_record_total:
  assumes "fst (verify_tree s ref parent_recno vs) = OK"
  shows "record_total (snd (verify_tree s ref parent_recno vs)) = record_total vs + ref_records ref
     \<and> record_count page vs' = vs'\<lparr>record_total := record_total vs' + page_records page\<rparr>
     \<and> page_records (WT_PAGE_COL_FIX recno entries) = ucast entries
     \<and> page_records (WT_PAGE_COL_VAR recno d dsk)
         = sum_list (map (\<lambda>cip. case col_ptr cip of None \<Rightarrow> 1 | Some unpack \<Rightarrow> rle unpack) d)
     \<and> page_records (WT_PAGE_COL_INT recno ct) = 0
     \<and> page_records (WT_PAGE_ROW_INT rt dsk) = 0
     \<and> page_records (WT_PAGE_ROW_LEAF rd dsk) = 0
     \<and> page_records WT_PAGE_OVFL = 0"
proof -
  have "slot_records = (\<lambda>cip. case col_ptr cip of None \<Rightarrow> 1 | Some unpack \<Rightarrow> rle unpack)"
    by (rule ext) (simp add: slot_records_def)
  then have "page_records (WT_PAGE_COL_VAR recno d dsk)
         = sum_list (map (\<lambda>cip. case col_ptr cip of None \<Rightarrow> 1 | Some unpack \<Rightarrow> rle unpack) d)"
    by (simp add: page_records_def)
  moreover have "page_records (WT_PAGE_COL_FIX recno entries) = ucast entries"
    by (simp add: page_records_def)
  ultimately show ?thesis
    using walk_record_total(1) [OF assms] record_count_page_records [of page vs']
    by simp
qed

theorem verify_tree_record_total_witness:
  "fst (verify_tree ex_session ex_col_root 1
          (ex_vs [False, False, False, False, False, False, False, False])) = OK
   \<and> record_total (snd (verify_tree ex_session ex_col_root 1
          (ex_vs [False, False, False, False, False, False, False, False]))) = 6
   \<and> ref_records ex_col_root = 6"
proof -
  let ?vs0 = "ex_vs [False, False, False, False, False, False, False, False]"
  have v: "verify_tree ex_session ex_col_root 1 ?vs0
      = (OK, (ex_vs [True, True, True, True, False, False, False, False])
            \<lparr>fcnt := 3, record_total := 6\<rparr>)"
    by (simp add: walk_defs ex_session_def ex_vs_def ex_col_root_def ex_fix_def ex_var_def)
  then have h: "fst (verify_tree ex_session ex_col_root 1 ?vs0) = OK"
    by simp
  have n: "ref_records ex_col_root = 6"
    by (simp add: ex_col_root_def ex_fix_def ex_var_def page_records_def slot_records_def)
  have "record_total (snd (verify_tree ex_session ex_col_root 1 ?vs0))
      = record_total ?vs0 + ref_records ex_col_root"
    using verify_tree_record_total [OF h] by blast
  then have r: "record_total (snd (verify_tree ex_session ex_col_root 1 ?vs0)) = 6"
    using n by (simp add: ex_vs_def)
  show ?thesis
    by (intro conjI) (rule h r n)+
qed

section \<open>Properties of the driver\<close>

text \<open>
  The preconditions of \<^verbatim>\<open>__verify_int\<close>, as far as the stored fragment count is
  the true one: a file no longer than the descriptor sector, a body that is not a
  multiple of the allocation size, or a fragment count above \<^verbatim>\<open>INT_MAX\<close> but below
  \<open>2^32\<close>, end the verification with a non-zero status before any page is visited.
\<close>

lemma verify_int_preconditions:
  assumes "file_size s \<le> WT_BTREE_DESC_SECTOR
      \<or> (file_size s - WT_BTREE_DESC_SECTOR) mod uint (allocsize s) \<noteq> 0
      \<or> (uint INT_MAX < WT_OFF_TO_ADDR s (file_size s) \<and> WT_OFF_TO_ADDR s (file_size s) < 2 ^ 32)"
  shows "fst (verify_int s dump) \<noteq> OK \<and> fcnt (snd (verify_int s dump)) = 0"
proof -
  have big: "word_of_int (WT_OFF_TO_ADDR s (file_size s)) > INT_MAX"
    if "uint INT_MAX < WT_OFF_TO_ADDR s (file_size s)" "WT_OFF_TO_ADDR s (file_size s) < 2 ^ 32"
  proof -
    have "uint (word_of_int (WT_OFF_TO_ADDR s (file_size s)) :: u32) = WT_OFF_TO_ADDR s (file_size s)"
      using that by (simp add: uint_word_of_int INT_MAX_def)
    then show ?thesis
      using that(1) by (simp add: word_less_def)
  qed
  obtain addr sz page rin revict where r: "root_page s = WT_REF addr sz page rin revict"
    by (cases "root_page s")
  show ?thesis
    using assms big
    by (cases "scr_alloc s 0") (auto simp: verify_int_def r WT_TRET_def Let_def)
qed

text \<open>
  C8. The third precondition fails for a fragment count of \<open>2^32\<close> or more: the count is
  stored in the 32-bit \<^verbatim>\<open>vs->frags\<close> before it is compared with \<^verbatim>\<open>INT_MAX\<close>. The
  file below has \<open>2^32 + 8\<close> fragments, more than \<^verbatim>\<open>INT_MAX\<close>; 8 is stored, the
  check passes, the root page is visited (\<open>fcnt = 1\<close>), the eight bits of the map are
  all set by that one page, and the verification returns 0.
\<close>

theorem verify_int_oversized_file:
  "uint INT_MAX < WT_OFF_TO_ADDR ex_session_2tb (file_size ex_session_2tb)
   \<and> verify_int ex_session_2tb False
       = (OK, (ex_vs [True, True, True, True, True, True, True, True])
            \<lparr>record_total := 3, fcnt := 1\<rparr>)"
proof -
  let ?s = ex_session_2tb
  let ?vs1 = "(ex_vs [])\<lparr>frags := 8\<rparr>"
  let ?vs2 = "ex_vs [False, False, False, False, False, False, False, False]"
  let ?vs3 = "(ex_vs [True, True, True, True, True, True, True, True])
      \<lparr>record_total := 3, fcnt := 1\<rparr>"
  have total: "WT_OFF_TO_ADDR ?s (file_size ?s) = 4294967304"
    by (simp add: ex_session_2tb_def ex_session_def WT_OFF_TO_ADDR_def WT_BTREE_DESC_SECTOR_def)
  have big: "uint INT_MAX < WT_OFF_TO_ADDR ?s (file_size ?s)"
    by (simp add: total INT_MAX_def)
  have stored: "(word_of_int (WT_OFF_TO_ADDR ?s (file_size ?s)) :: u32) = 8"
    by (simp add: total)
  have pre: "scr_alloc ?s 0 = OK" "\<not> file_size ?s \<le> WT_BTREE_DESC_SECTOR"
    "(file_size ?s - WT_BTREE_DESC_SECTOR) mod uint (allocsize ?s) = 0"
    "\<not> (8::u32) > INT_MAX" "bit_alloc ?s 8 = OK"
    "root_page ?s = WT_REF 0 4096 (WT_PAGE_COL_FIX 1 3) OK OK"
    by (simp_all add: ex_session_2tb_def ex_session_def WT_BTREE_DESC_SECTOR_def INT_MAX_def
        ex_leaf_def)
  have s: "allocsize ?s = 512" "freeqa ?s = []" "debug_page ?s = (\<lambda>_. OK)"
    by (simp_all add: ex_session_2tb_def ex_session_def)
  have tree: "verify_tree ?s (WT_REF 0 4096 (WT_PAGE_COL_FIX 1 3) OK OK) 1 ?vs2 = (OK, ?vs3)"
    by (simp add: walk_defs s ex_vs_def)
  have free: "verify_freelist ?s ?vs3 = (OK, ?vs3)"
    by (simp add: verify_freelist_def s)
  have "bit_ffc (fragbits ?vs3) (sint (frags ?vs3)) = - 1"
    by (simp add: bit_ffc_def ex_vs_def)
  then have audit: "verify_checkfrag ?s ?vs3 = (OK, ?vs3)"
    by (simp add: verify_checkfrag_def checkfrag_loop.simps [of _ "- 1" "- 1"])
  have rep: "replicate 8 False = [False, False, False, False, False, False, False, False]"
    by (simp add: numeral_eq_Suc)
  have "verify_int ?s False = (OK, ?vs3)"
    unfolding verify_int_def stored Let_def
    using pre tree free audit
    by (simp add: rep ex_vs_def WT_ADDR_INVALID_def WT_TRET_def del: verify_tree.simps)
  then show ?thesis
    using big by simp
qed

section \<open>Properties of the statistics walker\<close>

lemma stat_insert_loop_live:
  "stat_insert_loop False ins stats =
     stats\<lparr>file_item_col_deleted :=
              file_item_col_deleted stats + of_nat (length (filter (\<lambda>d. d) ins)),
            file_item_total_data :=
              file_item_total_data stats - of_nat (length (filter (\<lambda>d. d) ins))\<rparr>"
  by (induction ins arbitrary: stats) (simp_all add: algebra_simps)

lemma stat_insert_loop_deleted:
  "stat_insert_loop True ins stats =
     stats\<lparr>file_item_col_deleted :=
              file_item_col_deleted stats - of_nat (length (filter (\<lambda>d. \<not> d) ins)),
            file_item_total_data :=
              file_item_total_data stats + of_nat (length (filter (\<lambda>d. \<not> d) ins))\<rparr>"
  by (induction ins arbitrary: stats) (simp_all add: algebra_simps)

lemma stat_col_var_loop_sum:
  "stat_col_var_loop d stats =
     stats\<lparr>file_item_total_data := file_item_total_data stats + sum_list (map slot_data d),
            file_item_col_deleted := file_item_col_deleted stats + sum_list (map slot_deleted d)\<rparr>"
proof (induction d arbitrary: stats)
  case Nil
  then show ?case by simp
next
  case (Cons cip d)
  show ?case
  proof (cases "col_ptr cip")
    case None
    then show ?thesis
      by (simp add: Cons.IH stat_insert_loop_deleted slot_data_def slot_deleted_def
          live_inserts_def algebra_simps)
  next
    case (Some unpack)
    then show ?thesis
      by (simp add: Cons.IH stat_insert_loop_live slot_data_def slot_deleted_def
          tombstones_def algebra_simps)
  qed
qed

text \<open>
  C9. \<^verbatim>\<open>__stat_page_col_var\<close> on a variable-length column-store leaf returns 0 and adds,
  slot by slot, \<open>slot_data\<close> to the total-data counter and \<open>slot_deleted\<close> to the
  deletion counter: for a non-null slot its \<open>rle\<close> of data, with one moved from data to
  deletions per tombstone on its insert list and nothing for its other inserts; for a
  null slot one deletion, with one moved from deletions to data per insert that is not
  a tombstone and nothing for its tombstones. The counters are 64-bit and wrap.
\<close>

theorem stat_page_col_var_counts:
  "stat_page_col_var d stats =
     (OK, stats\<lparr>file_item_total_data := file_item_total_data stats + sum_list (map slot_data d),
                 file_item_col_deleted :=
                   file_item_col_deleted stats + sum_list (map slot_deleted d)\<rparr>)"
  by (simp add: stat_page_col_var_def stat_col_var_loop_sum)

lemma stat_page_col_var_example:
  "stat_page_col_var
     [\<lparr>col_ptr = Some \<lparr>ctype = WT_CELL_OTHER, rle = 5, off_addr = 0, off_size = 0\<rparr>,
       col_insert = [True, False, True]\<rparr>,
      \<lparr>col_ptr = None, col_insert = [False, True]\<rparr>,
      \<lparr>col_ptr = None, col_insert = []\<rparr>]
     \<lparr>file_item_total_data = 10, file_item_col_deleted = 0\<rparr>
   = (OK, \<lparr>file_item_total_data = 14, file_item_col_deleted = 3\<rparr>)"
  by (simp add: stat_page_col_var_def)

end
